theory Spec2Isabelle
  imports Complex_Main "HOL-Library.Multiset"
begin

chapter \<open>The analytics router of kismat-analytics\<close>

text \<open>
  The development embeds \<^verbatim>\<open>src/server/api/routers/analytics.ts\<close>: the period
  helper \<^verbatim>\<open>getDateRange\<close> and the procedures of \<^verbatim>\<open>analyticsRouter\<close>.
  Each procedure is a database query followed by shaping of the rows in
  TypeScript. A procedure is modelled as a function of the tables (lists of rows,
  \<^verbatim>\<open>src/server/db/schema.ts\<close>), of the clock reading and of the period token.
  The procedures \<^verbatim>\<open>userRetention\<close> and \<^verbatim>\<open>messageVolume\<close>, of which nothing is
  stated below, are left out.

  Conventions.
  \<^item> A JavaScript \<^verbatim>\<open>number\<close> that holds a row count, a length or an instant in
    milliseconds is a \<open>nat\<close> or an \<open>int\<close>: binary64 arithmetic is exact on
    integers up to \<open>2^53\<close> (lemma \<open>fl_of_int\<close>), far beyond any table size.
  \<^item> Every other \<^verbatim>\<open>number\<close> is a value of type \<open>number\<close>: a finite real or one
    of the three special values. The operators \<^verbatim>\<open>/\<close>, \<^verbatim>\<open>*\<close> and \<^verbatim>\<open>+\<close> round
    their exact result to binary64 (\<open>fl\<close>, round to nearest, ties to even).
    Overflow, subnormal numbers and the sign of zero are not represented: the
    exponent range of \<open>fl\<close> is unbounded.
  \<^item> A \<^verbatim>\<open>Date\<close> is its time value, an \<open>int\<close> of milliseconds since the epoch
    (the bound of \<open>8.64 * 10^15\<close> on a time value is not represented).
    \<^verbatim>\<open>new Date()\<close> reads the clock; the reading is an argument (\<open>now\<close>).
  \<^item> \<^verbatim>\<open>Math.random()\<close> is an argument as well: \<open>rand i\<close> is the result of the
    \<open>i\<close>-th call.
  \<^item> The SQL functions \<^verbatim>\<open>DATE\<close> and \<^verbatim>\<open>TO_CHAR(_, 'YYYY-MM')\<close> depend on the time
    zone of the database session; they are arguments of the procedures that use
    them, so every result holds for every calendar.
  \<^item> SQL leaves the order of grouped rows open unless the query says
    \<^verbatim>\<open>ORDER BY\<close>; \<open>groupBy\<close> fixes one order.
\<close>

section \<open>Binary64 rounding\<close>

text \<open>
  \<open>expo x\<close> is the binary exponent of \<open>x\<close>: \<open>2 powi expo x \<le> \<bar>x\<bar> < 2 powi (expo x + 1)\<close>.
  It is computed by halving or doubling, so that concrete values can be evaluated.
  \<open>ulp x\<close> is the spacing of the binary64 numbers in the binade of \<open>x\<close> (53
  significant bits), and \<open>fl x\<close> the multiple of \<open>ulp x\<close> nearest to \<open>x\<close>.
\<close>

function expo_up :: "real \<Rightarrow> nat" where
  "expo_up x = (if 2 \<le> x then Suc (expo_up (x / 2)) else 0)"
  by pat_completeness auto
termination
proof (relation "measure (\<lambda>x. nat \<lceil>x\<rceil>)")
  show "wf (measure (\<lambda>x::real. nat \<lceil>x\<rceil>))" by simp
next
  fix x :: real assume "2 \<le> x"
  then have "\<lceil>x / 2\<rceil> < \<lceil>x\<rceil>" by linarith
  moreover have "0 < \<lceil>x\<rceil>" using \<open>2 \<le> x\<close> by linarith
  ultimately show "(x / 2, x) \<in> measure (\<lambda>x. nat \<lceil>x\<rceil>)" by simp
qed

declare expo_up.simps [simp del]

function expo_down :: "real \<Rightarrow> nat" where
  "expo_down x = (if 0 < x \<and> x < 1 then Suc (expo_down (2 * x)) else 0)"
  by pat_completeness auto
termination
proof (relation "measure (\<lambda>x. nat \<lceil>2 / x\<rceil>)")
  show "wf (measure (\<lambda>x::real. nat \<lceil>2 / x\<rceil>))" by simp
next
  fix x :: real assume a: "0 < x \<and> x < 1"
  define z where "z = 2 / x"
  have z: "2 < z" using a by (simp add: z_def field_simps)
  have e: "2 / (2 * x) = z / 2" by (simp add: z_def)
  have "\<lceil>z / 2\<rceil> < \<lceil>z\<rceil>" using z by linarith
  moreover have "0 < \<lceil>z\<rceil>" using z by linarith
  ultimately show "(2 * x, x) \<in> measure (\<lambda>x. nat \<lceil>2 / x\<rceil>)"
    by (simp add: e flip: z_def)
qed

declare expo_down.simps [simp del]

definition expo :: "real \<Rightarrow> int" where
  "expo x = (if 1 \<le> \<bar>x\<bar> then int (expo_up \<bar>x\<bar>) else - int (expo_down \<bar>x\<bar>))"

definition roundTiesToEven :: "real \<Rightarrow> int" where
  "roundTiesToEven x =
     (let n = \<lfloor>x\<rfloor>; d = x - of_int n
      in if d < 1 / 2 then n else if 1 / 2 < d then n + 1 else if even n then n else n + 1)"

definition ulp :: "real \<Rightarrow> real" where
  "ulp x = 2 powi (expo x - 52)"

definition fl :: "real \<Rightarrow> real" where
  "fl x = of_int (roundTiesToEven (x / ulp x)) * ulp x"

text \<open>The operators of JavaScript on finite operands.\<close>

definition fdiv :: "real \<Rightarrow> real \<Rightarrow> real" where
  "fdiv a b = fl (a / b)"

definition fmul :: "real \<Rightarrow> real \<Rightarrow> real" where
  "fmul a b = fl (a * b)"

definition fadd :: "real \<Rightarrow> real \<Rightarrow> real" where
  "fadd a b = fl (a + b)"

section \<open>JavaScript numbers and their text\<close>

text \<open>
  A division by zero does not fail in JavaScript: it yields \<^verbatim>\<open>NaN\<close> or an
  infinity, which \<^verbatim>\<open>toFixed\<close> prints as \<^verbatim>\<open>"NaN"\<close> and \<^verbatim>\<open>"Infinity"\<close>.
\<close>

datatype number = Fin real | PosInf | NegInf | NaN

fun ndiv :: "number \<Rightarrow> number \<Rightarrow> number" where
  "ndiv (Fin a) (Fin b) =
     (if b = 0 then (if a = 0 then NaN else if 0 < a then PosInf else NegInf)
      else Fin (fdiv a b))"
| "ndiv (Fin a) PosInf = Fin 0"
| "ndiv (Fin a) NegInf = Fin 0"
| "ndiv PosInf (Fin b) = (if 0 \<le> b then PosInf else NegInf)"
| "ndiv NegInf (Fin b) = (if 0 \<le> b then NegInf else PosInf)"
| "ndiv _ _ = NaN"

fun nmul :: "number \<Rightarrow> number \<Rightarrow> number" where
  "nmul (Fin a) (Fin b) = Fin (fmul a b)"
| "nmul NaN _ = NaN"
| "nmul _ NaN = NaN"
| "nmul (Fin a) PosInf = (if a = 0 then NaN else if 0 < a then PosInf else NegInf)"
| "nmul (Fin a) NegInf = (if a = 0 then NaN else if 0 < a then NegInf else PosInf)"
| "nmul PosInf (Fin b) = (if b = 0 then NaN else if 0 < b then PosInf else NegInf)"
| "nmul NegInf (Fin b) = (if b = 0 then NaN else if 0 < b then NegInf else PosInf)"
| "nmul PosInf PosInf = PosInf"
| "nmul PosInf NegInf = NegInf"
| "nmul NegInf PosInf = NegInf"
| "nmul NegInf NegInf = PosInf"

fun nadd :: "number \<Rightarrow> number \<Rightarrow> number" where
  "nadd (Fin a) (Fin b) = Fin (fadd a b)"
| "nadd NaN _ = NaN"
| "nadd _ NaN = NaN"
| "nadd PosInf NegInf = NaN"
| "nadd NegInf PosInf = NaN"
| "nadd PosInf _ = PosInf"
| "nadd _ PosInf = PosInf"
| "nadd NegInf _ = NegInf"
| "nadd _ NegInf = NegInf"

text \<open>
  \<^verbatim>\<open>Number.prototype.toFixed(2)\<close>, after the ECMAScript algorithm: a sign, then the
  integer \<open>n\<close> for which \<open>n / 100\<close> is nearest to the value (the larger one of two),
  its decimal digits padded to three, and a point before the last two. From
  \<open>10^21\<close> on JavaScript prints exponent notation instead; the model keeps the
  fixed notation there.
\<close>

definition digitChar :: "nat \<Rightarrow> char" where
  "digitChar d = ''0123456789'' ! d"

function decimalDigits :: "nat \<Rightarrow> string" where
  "decimalDigits n =
     (if n < 10 then [digitChar n] else decimalDigits (n div 10) @ [digitChar (n mod 10)])"
  by pat_completeness auto
termination
  by (relation "measure (\<lambda>n. n)") auto

declare decimalDigits.simps [simp del]

definition toFixed2 :: "number \<Rightarrow> string" where
  "toFixed2 v =
     (case v of
        NaN \<Rightarrow> ''NaN''
      | PosInf \<Rightarrow> ''Infinity''
      | NegInf \<Rightarrow> ''-Infinity''
      | Fin x \<Rightarrow>
          (let s = (if x < 0 then ''-'' else '''');
               y = (if x < 0 then - x else x);
               n = nat \<lfloor>y * 100 + 1 / 2\<rfloor>;
               m = decimalDigits n;
               m = (if length m \<le> 2 then replicate (2 + 1 - length m) CHR ''0'' @ m else m);
               k = length m
           in s @ take (k - 2) m @ ''.'' @ drop (k - 2) m))"

text \<open>
  The value of a decimal numeral \<^verbatim>\<open>[-]digits[.digits]\<close>, as an exact real: how a
  formatted figure is read back as a number. Other strings have no value.
\<close>

fun indexOf :: "'a \<Rightarrow> 'a list \<Rightarrow> nat option" where
  "indexOf c [] = None"
| "indexOf c (x # xs) = (if c = x then Some 0 else map_option Suc (indexOf c xs))"

definition digitVal :: "char \<Rightarrow> nat option" where
  "digitVal c = indexOf c ''0123456789''"

fun digitsValue :: "nat \<Rightarrow> string \<Rightarrow> nat option" where
  "digitsValue acc [] = Some acc"
| "digitsValue acc (c # cs) =
     (case digitVal c of None \<Rightarrow> None | Some d \<Rightarrow> digitsValue (10 * acc + d) cs)"

definition unsignedValue :: "string \<Rightarrow> real option" where
  "unsignedValue s =
     (let ip = takeWhile (\<lambda>c. c \<noteq> CHR ''.'') s;
          fp = drop (length ip + 1) s
      in if ip = [] then None
         else case (digitsValue 0 ip, digitsValue 0 fp) of
                (Some a, Some b) \<Rightarrow> Some (real a + real b / 10 ^ length fp)
              | _ \<Rightarrow> None)"

definition decimalValue :: "string \<Rightarrow> real option" where
  "decimalValue s =
     (case s of
        c # t \<Rightarrow> if c = CHR ''-'' then map_option uminus (unsignedValue t) else unsignedValue s
      | [] \<Rightarrow> None)"



section \<open>The tables\<close>

text \<open>
  The rows of \<^verbatim>\<open>schema.ts\<close>, with the columns the router reads. A nullable column
  is an \<open>option\<close>. The field names carry the table's name, since Isabelle's record
  fields share one name space.
\<close>

type_synonym timestamp = int

record user =
  user_id :: string
  user_name :: "string option"
  user_email :: string

record account =
  account_userId :: string
  account_provider :: string
  account_providerAccountId :: string

record messageLog =
  messageLog_id :: int
  messageLog_userId :: string
  messageLog_createdAt :: timestamp

record requestLog =
  requestLog_id :: int
  requestLog_userId :: string
  requestLog_action :: string
  requestLog_statusCode :: int
  requestLog_success :: bool
  requestLog_error :: "string option"
  requestLog_createdAt :: timestamp

record userCredit =
  userCredit_userId :: string
  userCredit_balance :: int

record paymentIntent =
  paymentIntent_id :: int
  paymentIntent_userId :: string
  paymentIntent_tier :: string
  paymentIntent_status :: string
  paymentIntent_providerPaymentId :: "string option"
  paymentIntent_createdAt :: timestamp
  paymentIntent_completedAt :: "timestamp option"

record paymentRecord =
  paymentRecord_id :: int
  paymentRecord_userId :: string
  paymentRecord_providerPaymentId :: string
  paymentRecord_status :: string
  paymentRecord_amountCents :: int
  paymentRecord_createdAt :: timestamp

record db =
  users :: "user list"
  accounts :: "account list"
  messageLogs :: "messageLog list"
  requestLogs :: "requestLog list"
  userCredits :: "userCredit list"
  paymentIntents :: "paymentIntent list"
  paymentRecords :: "paymentRecord list"

text \<open>
  The primary keys the schema declares on the tables of the segmentation query:
  \<^verbatim>\<open>users.id\<close>, \<^verbatim>\<open>userCredits.userId\<close> and \<^verbatim>\<open>paymentRecords.id\<close>.
\<close>

definition primaryKeys :: "db \<Rightarrow> bool" where
  "primaryKeys d \<longleftrightarrow>
     distinct (map user_id (users d)) \<and>
     distinct (map userCredit_userId (userCredits d)) \<and>
     distinct (map paymentRecord_id (paymentRecords d))"

section \<open>The query operators\<close>

text \<open>
  \<^verbatim>\<open>LEFT JOIN\<close>: every left row with each right row the condition accepts, or with
  \<^verbatim>\<open>NULL\<close> when there is none (\<open>nullable\<close>). \<^verbatim>\<open>GROUP BY\<close>: one group per key among the rows,
  holding the rows of that key; \<^verbatim>\<open>NULL\<close> keys group together, as \<open>None = None\<close>.
\<close>

definition nullable :: "'b list \<Rightarrow> 'b option list" where
  "nullable ys = (case ys of [] \<Rightarrow> [None] | y # rest \<Rightarrow> map Some (y # rest))"

definition leftJoin :: "'a list \<Rightarrow> 'b list \<Rightarrow> ('a \<Rightarrow> 'b \<Rightarrow> bool) \<Rightarrow> ('a \<times> 'b option) list" where
  "leftJoin xs ys on = concat (map (\<lambda>x. map (Pair x) (nullable (filter (on x) ys))) xs)"

definition groupBy :: "('a \<Rightarrow> 'k) \<Rightarrow> 'a list \<Rightarrow> ('k \<times> 'a list) list" where
  "groupBy key rows = map (\<lambda>k. (k, filter (\<lambda>r. key r = k) rows)) (remdups (map key rows))"

text \<open>\<^verbatim>\<open>count()\<close> of a group, and \<^verbatim>\<open>ORDER BY count() DESC\<close>.\<close>

definition orderByDesc :: "('a \<Rightarrow> nat) \<Rightarrow> 'a list \<Rightarrow> 'a list" where
  "orderByDesc f rows = sort_key (\<lambda>r. - int (f r)) rows"

text \<open>
  \<^verbatim>\<open>select({ count: count() }).from(t)\<close> returns one row, and
  \<^verbatim>\<open>rows[0]?.count ?? d\<close> reads it.
\<close>

definition selectCount :: "'a list \<Rightarrow> nat list" where
  "selectCount t = [length t]"

definition firstCountOr :: "nat \<Rightarrow> nat list \<Rightarrow> nat" where
  "firstCountOr d rows = (case rows of [] \<Rightarrow> d | c # _ \<Rightarrow> c)"

section \<open>Period resolution\<close>

datatype period = P7d | P30d | P90d | P1y

record dateRange =
  startDate :: timestamp
  endDate :: timestamp

definition daysBack :: "period \<Rightarrow> int" where
  "daysBack p = (case p of P7d \<Rightarrow> 7 | P30d \<Rightarrow> 30 | P90d \<Rightarrow> 90 | P1y \<Rightarrow> 365)"

definition getDateRange :: "timestamp \<Rightarrow> period \<Rightarrow> dateRange" where
  "getDateRange now p =
     \<lparr>startDate = now - daysBack p * 24 * 60 * 60 * 1000, endDate = now\<rparr>"

text \<open>
  The filter \<^verbatim>\<open>and(gte(createdAt, startDate), lte(createdAt, endDate))\<close> of the
  queries: both ends belong to the interval.
\<close>

definition inRange :: "dateRange \<Rightarrow> timestamp \<Rightarrow> bool" where
  "inRange r t \<longleftrightarrow> startDate r \<le> t \<and> t \<le> endDate r"

section \<open>The procedures\<close>

text \<open>
  The pattern \<^verbatim>\<open>den > 0 ? ((num / den) * 100).toFixed(2) : "0"\<close> recurs in the
  router; \<open>ratePercent\<close> is that expression.
\<close>

definition ratePercent :: "nat \<Rightarrow> nat \<Rightarrow> string" where
  "ratePercent num den =
     (if den > 0 then toFixed2 (nmul (ndiv (Fin (real num)) (Fin (real den))) (Fin 100))
      else ''0'')"

subsection \<open>userGrowth\<close>

text \<open>
  \<open>now\<close> is the clock reading inside \<^verbatim>\<open>getDateRange\<close>, \<open>later\<close> the later
  reading in the computation of \<^verbatim>\<open>days\<close>. The \<^verbatim>\<open>date\<close> of a bucket is kept as
  the instant whose ISO date the code prints.
\<close>

record signupDay =
  sd_date :: timestamp
  sd_count :: int

record userGrowthResult =
  dailySignups :: "signupDay list"
  ug_totalUsers :: nat
  newUsersInPeriod :: int
  growthRate :: string

definition elapsedDays :: "timestamp \<Rightarrow> timestamp \<Rightarrow> period \<Rightarrow> int" where
  "elapsedDays now later p =
     \<lceil>fdiv (of_int (later - startDate (getDateRange now p))) (1000 * 60 * 60 * 24)\<rceil>"

definition avgDailySignups :: "nat \<Rightarrow> int \<Rightarrow> int" where
  "avgDailySignups tot days = \<lfloor>fdiv (real tot) (of_int (max days 1))\<rfloor>"

text \<open>\<^verbatim>\<open>0.8 + Math.random() * 0.4\<close>; the two literals are binary64 numbers.\<close>

definition jitter :: "real \<Rightarrow> real" where
  "jitter r = fadd (fl (8 / 10)) (fmul r (fl (4 / 10)))"

definition growthDenominator :: "nat \<Rightarrow> int \<Rightarrow> int" where
  "growthDenominator tot new = max (int tot - new) 1"

definition userGrowth :: "db \<Rightarrow> timestamp \<Rightarrow> timestamp \<Rightarrow> (nat \<Rightarrow> real) \<Rightarrow> period \<Rightarrow> userGrowthResult" where
  "userGrowth d now later rand p =
     (let totalUsers = selectCount (users d);
          start = startDate (getDateRange now p);
          days = elapsedDays now later p;
          avg = avgDailySignups (firstCountOr 0 totalUsers) days;
          signups = map (\<lambda>i. \<lparr>sd_date = start + int i * 24 * 60 * 60 * 1000,
                                sd_count = \<lfloor>fmul (of_int avg) (jitter (rand i))\<rfloor>\<rparr>)
                        [0..<nat (min days 30)];
          new = foldl (\<lambda>sum day. sum + sd_count day) 0 signups
      in \<lparr>dailySignups = signups,
          ug_totalUsers = firstCountOr 0 totalUsers,
          newUsersInPeriod = new,
          growthRate =
            (if firstCountOr 0 totalUsers \<noteq> 0
             then toFixed2 (nmul (ndiv (Fin (of_int new))
                                       (Fin (of_int (growthDenominator (firstCountOr 0 totalUsers) new))))
                                 (Fin 100))
             else ''0'')\<rparr>)"

subsection \<open>userEngagement\<close>

record userMessages =
  um_userId :: string
  um_messageCount :: nat
  um_userName :: "string option"

record 'd activeDay =
  ad_date :: 'd
  ad_activeUsers :: nat

record 'd userEngagementResult =
  messagesPerUser :: "userMessages list"
  dailyActiveUsers :: "'d activeDay list"
  avgMessagesPerUser :: string
  totalActiveUsers :: nat

definition messagesPerUserQuery :: "db \<Rightarrow> dateRange \<Rightarrow> userMessages list" where
  "messagesPerUserQuery d r =
     orderByDesc um_messageCount
       (map (\<lambda>((uid, nm), rows). \<lparr>um_userId = uid, um_messageCount = length rows, um_userName = nm\<rparr>)
          (groupBy (\<lambda>(m, u). (messageLog_userId m, Option.bind u user_name))
             (filter (\<lambda>(m, u). inRange r (messageLog_createdAt m))
                (leftJoin (messageLogs d) (users d) (\<lambda>m u. messageLog_userId m = user_id u)))))"

definition dailyActiveUsersQuery :: "(timestamp \<Rightarrow> 'd::linorder) \<Rightarrow> db \<Rightarrow> dateRange \<Rightarrow> 'd activeDay list" where
  "dailyActiveUsersQuery DATE d r =
     sort_key ad_date
       (map (\<lambda>(day, rows). \<lparr>ad_date = day,
                               ad_activeUsers = length (remdups (map messageLog_userId rows))\<rparr>)
          (groupBy (\<lambda>m. DATE (messageLog_createdAt m))
             (filter (\<lambda>m. inRange r (messageLog_createdAt m)) (messageLogs d))))"

definition avgMessages :: "userMessages list \<Rightarrow> string" where
  "avgMessages rows =
     (if length rows > 0
      then toFixed2 (ndiv (Fin (real (foldl (\<lambda>sum u. sum + um_messageCount u) 0 rows)))
                          (Fin (real (length rows))))
      else ''0'')"

definition userEngagement :: "(timestamp \<Rightarrow> 'd::linorder) \<Rightarrow> db \<Rightarrow> timestamp \<Rightarrow> period \<Rightarrow> 'd userEngagementResult" where
  "userEngagement DATE d now p =
     (let r = getDateRange now p;
          perUser = messagesPerUserQuery d r
      in \<lparr>messagesPerUser = take 20 perUser,
          dailyActiveUsers = dailyActiveUsersQuery DATE d r,
          avgMessagesPerUser = avgMessages perUser,
          totalActiveUsers = length perUser\<rparr>)"

subsection \<open>authenticationPatterns\<close>

record providerStat =
  ps_provider :: string
  ps_count :: nat

record providerShare = providerStat +
  percentage :: string

record authenticationPatternsResult =
  providerStats :: "providerShare list"
  totalAccounts :: nat

definition providerStatsQuery :: "db \<Rightarrow> providerStat list" where
  "providerStatsQuery d =
     orderByDesc ps_count
       (map (\<lambda>(prov, rows). \<lparr>ps_provider = prov, ps_count = length rows\<rparr>)
          (groupBy account_provider (accounts d)))"

text \<open>The shaping of the rows, for any rows the query may deliver.\<close>

definition authenticationPatternsOf :: "providerStat list \<Rightarrow> authenticationPatternsResult" where
  "authenticationPatternsOf stats =
     (let tot = foldl (\<lambda>sum provider. sum + ps_count provider) 0 stats
      in \<lparr>providerStats =
            map (\<lambda>provider. \<lparr>ps_provider = ps_provider provider, ps_count = ps_count provider,
                              percentage = ratePercent (ps_count provider) tot\<rparr>) stats,
          totalAccounts = tot\<rparr>)"

definition authenticationPatterns :: "db \<Rightarrow> authenticationPatternsResult" where
  "authenticationPatterns d = authenticationPatternsOf (providerStatsQuery d)"

subsection \<open>userSegmentation\<close>

record segmentRow =
  seg_userId :: string
  seg_userName :: "string option"
  seg_email :: string
  seg_credits :: "int option"
  seg_totalMessages :: nat
  seg_hasPaid :: bool

record segments =
  free :: "segmentRow list"
  paid :: "segmentRow list"
  heavy :: "segmentRow list"
  light :: "segmentRow list"

record userSegmentationResult =
  freeUsers :: nat
  paidUsers :: nat
  heavyUsers :: nat
  lightUsers :: nat
  segments :: segments

type_synonym segmentJoin = "((user \<times> userCredit option) \<times> messageLog option) \<times> paymentRecord option"

definition segmentJoinRows :: "db \<Rightarrow> segmentJoin list" where
  "segmentJoinRows d =
     leftJoin
       (leftJoin
          (leftJoin (users d) (userCredits d) (\<lambda>u c. user_id u = userCredit_userId c))
          (messageLogs d) (\<lambda>(u, c) m. user_id u = messageLog_userId m))
       (paymentRecords d) (\<lambda>((u, c), m) pr. user_id u = paymentRecord_userId pr)"

definition segmentKey :: "segmentJoin \<Rightarrow> string \<times> string option \<times> string \<times> int option \<times> int option" where
  "segmentKey = (\<lambda>(((u, c), m), pr).
     (user_id u, user_name u, user_email u, map_option userCredit_balance c,
      map_option paymentRecord_id pr))"

text \<open>
  \<^verbatim>\<open>count(messageLogs.id)\<close> counts the rows of the group whose message is not
  \<^verbatim>\<open>NULL\<close>; \<^verbatim>\<open>hasPaid\<close> tests the payment record's id, which is part of the key.
\<close>

definition userSegments :: "db \<Rightarrow> segmentRow list" where
  "userSegments d =
     map (\<lambda>((uid, nm, em, bal, prid), rows).
            \<lparr>seg_userId = uid, seg_userName = nm, seg_email = em, seg_credits = bal,
             seg_totalMessages = length (filter (\<lambda>(((u, c), m), pr). m \<noteq> None) rows),
             seg_hasPaid = (prid \<noteq> None)\<rparr>)
         (groupBy segmentKey (segmentJoinRows d))"

text \<open>
  The four filtered lists, the local constants \<^verbatim>\<open>freeUsers\<close>, \<^verbatim>\<open>paidUsers\<close>,
  \<^verbatim>\<open>heavyUsers\<close> and \<^verbatim>\<open>lightUsers\<close> of the code (the result uses these names
  for their lengths).
\<close>

definition freeRows :: "segmentRow list \<Rightarrow> segmentRow list" where
  "freeRows rows = filter (\<lambda>user. \<not> seg_hasPaid user) rows"

definition paidRows :: "segmentRow list \<Rightarrow> segmentRow list" where
  "paidRows rows = filter (\<lambda>user. seg_hasPaid user) rows"

definition heavyRows :: "segmentRow list \<Rightarrow> segmentRow list" where
  "heavyRows rows = filter (\<lambda>user. seg_totalMessages user > 10) rows"

definition lightRows :: "segmentRow list \<Rightarrow> segmentRow list" where
  "lightRows rows = filter (\<lambda>user. seg_totalMessages user \<le> 10) rows"

definition userSegmentationOf :: "segmentRow list \<Rightarrow> userSegmentationResult" where
  "userSegmentationOf rows =
     \<lparr>freeUsers = length (freeRows rows),
      paidUsers = length (paidRows rows),
      heavyUsers = length (heavyRows rows),
      lightUsers = length (lightRows rows),
      segments = \<lparr>free = take 10 (freeRows rows), paid = take 10 (paidRows rows),
                  heavy = take 10 (heavyRows rows), light = take 10 (lightRows rows)\<rparr>\<rparr>"

definition userSegmentation :: "db \<Rightarrow> userSegmentationResult" where
  "userSegmentation d = userSegmentationOf (userSegments d)"

subsection \<open>conversionFunnel\<close>

record conversionRates =
  registrationToFirstMessage :: string
  firstMessageToPaymentIntent :: string
  paymentIntentToCompletion :: string
  overallConversion :: string

record conversionFunnelResult =
  registrations :: nat
  firstMessage :: nat
  paymentIntent :: nat
  completedPayment :: nat
  conversionRates :: conversionRates

definition succeededInRange :: "db \<Rightarrow> dateRange \<Rightarrow> paymentRecord list" where
  "succeededInRange d r =
     filter (\<lambda>pr. inRange r (paymentRecord_createdAt pr) \<and> paymentRecord_status pr = ''succeeded'')
       (paymentRecords d)"

definition conversionFunnelOf :: "nat list \<Rightarrow> string list \<Rightarrow> string list \<Rightarrow> string list \<Rightarrow> conversionFunnelResult" where
  "conversionFunnelOf totalUsers firstMessageUsers paymentIntentUsers completedPaymentUsers =
     (let totalRegistrations = firstCountOr 0 totalUsers
      in \<lparr>registrations = totalRegistrations,
          firstMessage = length firstMessageUsers,
          paymentIntent = length paymentIntentUsers,
          completedPayment = length completedPaymentUsers,
          conversionRates =
            \<lparr>registrationToFirstMessage = ratePercent (length firstMessageUsers) totalRegistrations,
             firstMessageToPaymentIntent =
               ratePercent (length paymentIntentUsers) (length firstMessageUsers),
             paymentIntentToCompletion =
               ratePercent (length completedPaymentUsers) (length paymentIntentUsers),
             overallConversion = ratePercent (length completedPaymentUsers) totalRegistrations\<rparr>\<rparr>)"

definition conversionFunnel :: "db \<Rightarrow> timestamp \<Rightarrow> period \<Rightarrow> conversionFunnelResult" where
  "conversionFunnel d now p =
     (let r = getDateRange now p
      in conversionFunnelOf
           (selectCount (users d))
           (map fst (groupBy messageLog_userId
              (filter (\<lambda>m. inRange r (messageLog_createdAt m)) (messageLogs d))))
           (map fst (groupBy paymentIntent_userId
              (filter (\<lambda>i. inRange r (paymentIntent_createdAt i)) (paymentIntents d))))
           (map fst (groupBy paymentRecord_userId (succeededInRange d r))))"

subsection \<open>revenueMetrics\<close>

text \<open>
  \<^verbatim>\<open>sum(amountCents)\<close> reaches the code as the decimal text of an integer or as
  \<^verbatim>\<open>null\<close>: an \<open>int option\<close>. \<^verbatim>\<open>Number(month.revenue ?? 0)\<close> is the binary64 number
  nearest to the integer, the integer itself up to \<open>2^53\<close>; the text is truthy
  whatever the integer. The \<^verbatim>\<open>reduce\<close> adds these numbers in binary64, rounding
  after every addition.
\<close>

record 'm monthRevenue =
  mr_month :: 'm
  mr_revenue :: "int option"
  mr_transactions :: nat

record 'm monthRevenueOut = "'m monthRevenue" +
  revenueInCurrency :: string

record 'm revenueMetricsResult =
  monthlyRevenue :: "'m monthRevenueOut list"
  totalRevenue :: string
  arpu :: string
  uniquePayingUsers :: nat

definition monthlyRevenueQuery :: "(timestamp \<Rightarrow> 'm::linorder) \<Rightarrow> db \<Rightarrow> dateRange \<Rightarrow> 'm monthRevenue list" where
  "monthlyRevenueQuery TO_CHAR d r =
     sort_key mr_month
       (map (\<lambda>(month, rows). \<lparr>mr_month = month,
                                 mr_revenue = Some (sum_list (map paymentRecord_amountCents rows)),
                                 mr_transactions = length rows\<rparr>)
          (groupBy (\<lambda>pr. TO_CHAR (paymentRecord_createdAt pr)) (succeededInRange d r)))"

definition uniquePayingUsersQuery :: "db \<Rightarrow> dateRange \<Rightarrow> string list" where
  "uniquePayingUsersQuery d r = map fst (groupBy paymentRecord_userId (succeededInRange d r))"

definition revenueNumber :: "int option \<Rightarrow> number" where
  "revenueNumber v = (case v of None \<Rightarrow> Fin 0 | Some cents \<Rightarrow> Fin (fl (of_int cents)))"

definition totalRevenueCents :: "'m monthRevenue list \<Rightarrow> number" where
  "totalRevenueCents months =
     foldl (\<lambda>sum month. nadd sum (revenueNumber (mr_revenue month))) (Fin 0) months"

definition revenueMetricsOf :: "'m monthRevenue list \<Rightarrow> string list \<Rightarrow> 'm revenueMetricsResult" where
  "revenueMetricsOf months payers =
     (let tot = totalRevenueCents months
      in \<lparr>monthlyRevenue =
            map (\<lambda>month. \<lparr>mr_month = mr_month month, mr_revenue = mr_revenue month,
                           mr_transactions = mr_transactions month,
                           revenueInCurrency =
                             (case mr_revenue month of
                                Some cents \<Rightarrow> toFixed2 (ndiv (revenueNumber (Some cents)) (Fin 100))
                              | None \<Rightarrow> ''0'')\<rparr>) months,
          totalRevenue = toFixed2 (ndiv tot (Fin 100)),
          arpu =
            (if length payers > 0
             then toFixed2 (ndiv (ndiv tot (Fin (real (length payers)))) (Fin 100))
             else ''0''),
          uniquePayingUsers = length payers\<rparr>)"

definition revenueMetrics :: "(timestamp \<Rightarrow> 'm::linorder) \<Rightarrow> db \<Rightarrow> timestamp \<Rightarrow> period \<Rightarrow> 'm revenueMetricsResult" where
  "revenueMetrics TO_CHAR d now p =
     (let r = getDateRange now p
      in revenueMetricsOf (monthlyRevenueQuery TO_CHAR d r) (uniquePayingUsersQuery d r))"

subsection \<open>paymentAnalysis\<close>

record tierStat =
  ts_tier :: string
  ts_totalAttempts :: nat
  ts_successful :: nat

record tierStatOut = tierStat +
  tierSuccessRate :: string

record processingTime =
  pt_paymentIntentId :: int
  pt_tier :: string
  pt_timeToComplete :: "real option"

record paymentAnalysisResult =
  tierStats :: "tierStatOut list"
  averageProcessingTime :: string
  processingTimes :: "processingTime list"

definition tierStatsQuery :: "db \<Rightarrow> dateRange \<Rightarrow> tierStat list" where
  "tierStatsQuery d r =
     map (\<lambda>(tier, rows).
            \<lparr>ts_tier = tier, ts_totalAttempts = length rows,
             ts_successful =
               length (filter (\<lambda>(i, pr). map_option paymentRecord_status pr = Some ''succeeded'') rows)\<rparr>)
       (groupBy (\<lambda>(i, pr). paymentIntent_tier i)
          (filter (\<lambda>(i, pr). inRange r (paymentIntent_createdAt i))
             (leftJoin (paymentIntents d) (paymentRecords d)
                (\<lambda>i pr. paymentIntent_providerPaymentId i = Some (paymentRecord_providerPaymentId pr)))))"

text \<open>
  \<^verbatim>\<open>EXTRACT(EPOCH FROM completedAt - createdAt)\<close>: the seconds between the two
  instants, \<^verbatim>\<open>NULL\<close> while the intent has no completion time. The code declares
  the column \<^verbatim>\<open>sql<number>\<close>, and the model takes it as the number so declared. A
  driver that delivers the column as text makes \<^verbatim>\<open>sum + timeToComplete\<close> a
  concatenation in the branch with samples, which prints another text there; the
  branch without samples is the same either way, and nothing below is stated
  about the branch with samples.
\<close>

definition processingTimesQuery :: "db \<Rightarrow> dateRange \<Rightarrow> processingTime list" where
  "processingTimesQuery d r =
     map (\<lambda>i. \<lparr>pt_paymentIntentId = paymentIntent_id i, pt_tier = paymentIntent_tier i,
                pt_timeToComplete =
                  map_option (\<lambda>c. fdiv (of_int (c - paymentIntent_createdAt i)) 1000)
                    (paymentIntent_completedAt i)\<rparr>)
       (filter (\<lambda>i. inRange r (paymentIntent_createdAt i) \<and> paymentIntent_status i = ''completed'')
          (paymentIntents d))"

definition averageProcessing :: "processingTime list \<Rightarrow> string" where
  "averageProcessing samples =
     (if length samples > 0
      then toFixed2
             (ndiv (ndiv (foldl (\<lambda>sum payment.
                                    nadd sum (Fin (case pt_timeToComplete payment of
                                                     None \<Rightarrow> 0 | Some t \<Rightarrow> t)))
                                (Fin 0) samples)
                         (Fin (real (length samples))))
                   (Fin 60))
      else ''0'')"

definition paymentAnalysisOf :: "tierStat list \<Rightarrow> processingTime list \<Rightarrow> paymentAnalysisResult" where
  "paymentAnalysisOf stats samples =
     \<lparr>tierStats =
        map (\<lambda>tier. \<lparr>ts_tier = ts_tier tier, ts_totalAttempts = ts_totalAttempts tier,
                      ts_successful = ts_successful tier,
                      tierSuccessRate = ratePercent (ts_successful tier) (ts_totalAttempts tier)\<rparr>)
            stats,
      averageProcessingTime = averageProcessing samples,
      processingTimes = take 100 samples\<rparr>"

definition paymentAnalysis :: "db \<Rightarrow> timestamp \<Rightarrow> period \<Rightarrow> paymentAnalysisResult" where
  "paymentAnalysis d now p =
     (let r = getDateRange now p
      in paymentAnalysisOf (tierStatsQuery d r) (processingTimesQuery d r))"

subsection \<open>systemHealth\<close>

text \<open>
  The column \<^verbatim>\<open>avgResponseTime\<close> of the first query is an SQL average that the
  code passes through unread; it is left out of the rows.
\<close>

record apiStat =
  as_action :: string
  as_totalRequests :: nat
  as_successfulRequests :: nat

record apiStatOut = apiStat +
  successRate :: string

record errorPattern =
  ep_error :: "string option"
  ep_statusCode :: int
  ep_count :: nat

record systemHealthResult =
  apiStats :: "apiStatOut list"
  errorPatterns :: "errorPattern list"
  totalRequests :: nat

definition requestsInRange :: "db \<Rightarrow> dateRange \<Rightarrow> requestLog list" where
  "requestsInRange d r = filter (\<lambda>q. inRange r (requestLog_createdAt q)) (requestLogs d)"

definition apiStatsQuery :: "db \<Rightarrow> dateRange \<Rightarrow> apiStat list" where
  "apiStatsQuery d r =
     map (\<lambda>(action, rows).
            \<lparr>as_action = action, as_totalRequests = length rows,
             as_successfulRequests = length (filter requestLog_success rows)\<rparr>)
       (groupBy requestLog_action (requestsInRange d r))"

definition errorPatternsQuery :: "db \<Rightarrow> dateRange \<Rightarrow> errorPattern list" where
  "errorPatternsQuery d r =
     take 10
       (orderByDesc ep_count
          (map (\<lambda>((err, code), rows). \<lparr>ep_error = err, ep_statusCode = code, ep_count = length rows\<rparr>)
             (groupBy (\<lambda>q. (requestLog_error q, requestLog_statusCode q))
                (filter (\<lambda>q. \<not> requestLog_success q) (requestsInRange d r)))))"

definition systemHealthOf :: "apiStat list \<Rightarrow> errorPattern list \<Rightarrow> systemHealthResult" where
  "systemHealthOf stats errors =
     \<lparr>apiStats =
        map (\<lambda>stat. \<lparr>as_action = as_action stat, as_totalRequests = as_totalRequests stat,
                      as_successfulRequests = as_successfulRequests stat,
                      successRate = ratePercent (as_successfulRequests stat) (as_totalRequests stat)\<rparr>)
            stats,
      errorPatterns = errors,
      totalRequests = foldl (\<lambda>sum stat. sum + as_totalRequests stat) 0 stats\<rparr>"

definition systemHealth :: "db \<Rightarrow> timestamp \<Rightarrow> period \<Rightarrow> systemHealthResult" where
  "systemHealth d now p =
     (let r = getDateRange now p
      in systemHealthOf (apiStatsQuery d r) (errorPatternsQuery d r))"

subsection \<open>rateLimitingImpact\<close>

record 'd dailyCount =
  dc_userId :: string
  dc_date :: 'd
  dc_messageCount :: nat

record 'd rateLimitingImpactResult =
  totalDaysWithLimitHits :: nat
  uniqueUsersAffected :: nat
  averageMessagesOnLimitDays :: string
  dailyLimitHits :: "'d dailyCount list"

definition messagesInRange :: "db \<Rightarrow> dateRange \<Rightarrow> messageLog list" where
  "messagesInRange d r = filter (\<lambda>m. inRange r (messageLog_createdAt m)) (messageLogs d)"

definition dailyMessageCounts :: "(timestamp \<Rightarrow> 'd) \<Rightarrow> db \<Rightarrow> dateRange \<Rightarrow> 'd dailyCount list" where
  "dailyMessageCounts DATE d r =
     map (\<lambda>((uid, day), rows). \<lparr>dc_userId = uid, dc_date = day, dc_messageCount = length rows\<rparr>)
       (groupBy (\<lambda>m. (messageLog_userId m, DATE (messageLog_createdAt m))) (messagesInRange d r))"

definition usersHittingLimits :: "'d dailyCount list \<Rightarrow> 'd dailyCount list" where
  "usersHittingLimits counts = filter (\<lambda>day. dc_messageCount day \<ge> 5) counts"

text \<open>\<^verbatim>\<open>[...new Set(xs)]\<close> keeps one copy of every element.\<close>

definition rateLimitingImpactOf :: "'d dailyCount list \<Rightarrow> 'd rateLimitingImpactResult" where
  "rateLimitingImpactOf counts =
     (let hits = usersHittingLimits counts;
          uniqueUsers = remdups (map dc_userId hits)
      in \<lparr>totalDaysWithLimitHits = length hits,
          uniqueUsersAffected = length uniqueUsers,
          averageMessagesOnLimitDays =
            (if length hits > 0
             then toFixed2 (ndiv (Fin (real (foldl (\<lambda>sum day. sum + dc_messageCount day) 0 hits)))
                                 (Fin (real (length hits))))
             else ''0''),
          dailyLimitHits = take 50 hits\<rparr>)"

definition rateLimitingImpact :: "(timestamp \<Rightarrow> 'd) \<Rightarrow> db \<Rightarrow> timestamp \<Rightarrow> period \<Rightarrow> 'd rateLimitingImpactResult" where
  "rateLimitingImpact DATE d now p =
     rateLimitingImpactOf (dailyMessageCounts DATE d (getDateRange now p))"

section \<open>Quantities of the tables\<close>

text \<open>
  What the statements below measure on the tables themselves: the messages of a
  user, the payment records of a user, and the messages of a user on one day of
  an interval; and the requests of one action in an interval.
\<close>

definition messagesOf :: "db \<Rightarrow> string \<Rightarrow> messageLog list" where
  "messagesOf d uid = filter (\<lambda>m. messageLog_userId m = uid) (messageLogs d)"

definition paymentsOf :: "db \<Rightarrow> string \<Rightarrow> paymentRecord list" where
  "paymentsOf d uid = filter (\<lambda>pr. paymentRecord_userId pr = uid) (paymentRecords d)"

definition messagesOn :: "(timestamp \<Rightarrow> 'd) \<Rightarrow> db \<Rightarrow> dateRange \<Rightarrow> string \<Rightarrow> 'd \<Rightarrow> nat" where
  "messagesOn DATE d r uid day =
     length (filter (\<lambda>m. messageLog_userId m = uid \<and> DATE (messageLog_createdAt m) = day)
               (messagesInRange d r))"

definition requestsFor :: "db \<Rightarrow> dateRange \<Rightarrow> string \<Rightarrow> requestLog list" where
  "requestsFor d r action = filter (\<lambda>q. requestLog_action q = action) (requestsInRange d r)"

text \<open>
  The rows that the three joins of the segmentation query produce for one user:
  the user with each of the credit rows, messages and payment records of that
  user, or with \<^verbatim>\<open>NULL\<close> where there is none.
\<close>

definition userJoin :: "db \<Rightarrow> user \<Rightarrow> segmentJoin list" where
  "userJoin d u =
     concat (map (\<lambda>c.
       concat (map (\<lambda>m.
         map (\<lambda>pr. (((u, c), m), pr))
           (nullable (filter (\<lambda>pr. user_id u = paymentRecord_userId pr) (paymentRecords d))))
         (nullable (filter (\<lambda>m. user_id u = messageLog_userId m) (messageLogs d)))))
       (nullable (filter (\<lambda>c. user_id u = userCredit_userId c) (userCredits d))))"


text \<open>
  The cents of a monthly bucket of \<^verbatim>\<open>revenueMetrics\<close>: the integer that the column
  \<^verbatim>\<open>revenue\<close> holds, before any conversion to a number.
\<close>

definition bucketCents :: "('m, 'z) monthRevenue_scheme \<Rightarrow> int" where
  "bucketCents month = (case mr_revenue month of None \<Rightarrow> 0 | Some cents \<Rightarrow> cents)"
section \<open>Example data\<close>

text \<open>
  Small tables on which the statements below are evaluated. \<open>utcDay\<close> is the
  calendar of a session in UTC, with the days numbered from the epoch.
\<close>

definition utcDay :: "timestamp \<Rightarrow> int" where
  "utcDay t = t div 86400000"

definition messageAt :: "string \<Rightarrow> int \<Rightarrow> messageLog" where
  "messageAt uid i = \<lparr>messageLog_id = i, messageLog_userId = uid, messageLog_createdAt = 1000 + i\<rparr>"

definition limitsExample :: db where
  "limitsExample =
     \<lparr>users = [\<lparr>user_id = ''ann'', user_name = Some ''Ann'', user_email = ''ann@example.org''\<rparr>,
               \<lparr>user_id = ''bob'', user_name = None, user_email = ''bob@example.org''\<rparr>,
               \<lparr>user_id = ''cy'', user_name = Some ''Cy'', user_email = ''cy@example.org''\<rparr>],
      accounts = [],
      messageLogs = map (messageAt ''ann'') [0, 1, 2, 3, 4] @ map (messageAt ''bob'') [5, 6, 7, 8]
                      @ map (messageAt ''cy'') [9, 10, 11, 12, 13],
      requestLogs = [], userCredits = [], paymentIntents = [], paymentRecords = []\<rparr>"

definition chatRequest :: "bool \<Rightarrow> int \<Rightarrow> requestLog" where
  "chatRequest ok i =
     \<lparr>requestLog_id = i, requestLog_userId = ''ann'', requestLog_action = ''chat'',
      requestLog_statusCode = (if ok then 200 else 500), requestLog_success = ok,
      requestLog_error = (if ok then None else Some ''timeout''), requestLog_createdAt = 5000\<rparr>"

definition healthExample :: db where
  "healthExample =
     \<lparr>users = [\<lparr>user_id = ''ann'', user_name = Some ''Ann'', user_email = ''ann@example.org''\<rparr>],
      accounts = [], messageLogs = [],
      requestLogs = map (chatRequest True) [0..99] @ map (chatRequest False) [100..104],
      userCredits = [], paymentIntents = [], paymentRecords = []\<rparr>"

definition authExample :: db where
  "authExample =
     \<lparr>users = [\<lparr>user_id = ''ann'', user_name = Some ''Ann'', user_email = ''ann@example.org''\<rparr>,
               \<lparr>user_id = ''bob'', user_name = None, user_email = ''bob@example.org''\<rparr>],
      accounts = [\<lparr>account_userId = ''ann'', account_provider = ''google'', account_providerAccountId = ''g-1''\<rparr>,
                  \<lparr>account_userId = ''ann'', account_provider = ''github'', account_providerAccountId = ''h-1''\<rparr>,
                  \<lparr>account_userId = ''bob'', account_provider = ''google'', account_providerAccountId = ''g-2''\<rparr>],
      messageLogs = [], requestLogs = [], userCredits = [], paymentIntents = [], paymentRecords = []\<rparr>"

text \<open>A calendar of months of thirty days, numbered from the epoch.\<close>

definition thirtyDays :: "timestamp \<Rightarrow> int" where
  "thirtyDays t = t div 2592000000"

definition payment :: "int \<Rightarrow> string \<Rightarrow> string \<Rightarrow> int \<Rightarrow> timestamp \<Rightarrow> paymentRecord" where
  "payment i uid status cents t =
     \<lparr>paymentRecord_id = i, paymentRecord_userId = uid, paymentRecord_providerPaymentId = ''pay'',
      paymentRecord_status = status, paymentRecord_amountCents = cents, paymentRecord_createdAt = t\<rparr>"

definition revenueExample :: db where
  "revenueExample =
     \<lparr>users = [\<lparr>user_id = ''ann'', user_name = Some ''Ann'', user_email = ''ann@example.org''\<rparr>,
               \<lparr>user_id = ''bob'', user_name = None, user_email = ''bob@example.org''\<rparr>,
               \<lparr>user_id = ''cy'', user_name = Some ''Cy'', user_email = ''cy@example.org''\<rparr>],
      accounts = [], messageLogs = [], requestLogs = [], userCredits = [], paymentIntents = [],
      paymentRecords = [payment 1 ''ann'' ''succeeded'' 2000 1000,
                        payment 2 ''ann'' ''succeeded'' 500 2592001000,
                        payment 3 ''bob'' ''succeeded'' 1500 2000,
                        payment 4 ''bob'' ''failed'' 700 3000,
                        payment 5 ''cy'' ''succeeded'' 900 (- 3456000000)]\<rparr>"

definition segmentExample :: db where
  "segmentExample =
     \<lparr>users = [\<lparr>user_id = ''ann'', user_name = Some ''Ann'', user_email = ''ann@example.org''\<rparr>,
               \<lparr>user_id = ''bob'', user_name = None, user_email = ''bob@example.org''\<rparr>,
               \<lparr>user_id = ''cy'', user_name = Some ''Cy'', user_email = ''cy@example.org''\<rparr>],
      accounts = [],
      messageLogs = map (messageAt ''ann'') [1, 2, 3, 4, 5, 6, 7, 8, 9, 10, 11]
                      @ map (messageAt ''bob'') [12, 13, 14, 15, 16, 17, 18, 19, 20, 21],
      requestLogs = [],
      userCredits = [\<lparr>userCredit_userId = ''ann'', userCredit_balance = 3\<rparr>],
      paymentIntents = [],
      paymentRecords = [payment 1 ''ann'' ''succeeded'' 2000 1000,
                        payment 2 ''ann'' ''failed'' 500 2000,
                        payment 3 ''cy'' ''failed'' 700 3000]\<rparr>"

definition growthExample :: db where
  "growthExample =
     \<lparr>users = map (\<lambda>i. \<lparr>user_id = decimalDigits i, user_name = None,
                           user_email = decimalDigits i @ ''@example.org''\<rparr>) [1..<36],
      accounts = [], messageLogs = [], requestLogs = [], userCredits = [], paymentIntents = [],
      paymentRecords = []\<rparr>"


text \<open>Eleven users with no message, no credit row and no payment record.\<close>

definition crowdExample :: db where
  "crowdExample =
     \<lparr>users = map (\<lambda>c. \<lparr>user_id = [c], user_name = None, user_email = c # ''@example.org''\<rparr>)
                 ''abcdefghijk'',
      accounts = [], messageLogs = [], requestLogs = [], userCredits = [], paymentIntents = [],
      paymentRecords = []\<rparr>"
section \<open>Properties of the rounding\<close>

lemma expo_up_bounds: "1 \<le> x \<Longrightarrow> 2 ^ expo_up x \<le> x \<and> x < 2 ^ Suc (expo_up x)"
proof (induction x rule: expo_up.induct)
  case (1 x)
  show ?case
  proof (cases "2 \<le> x")
    case True
    then have "2 ^ expo_up (x / 2) \<le> x / 2 \<and> x / 2 < 2 ^ Suc (expo_up (x / 2))"
      using "1.IH" by simp
    moreover have "expo_up x = Suc (expo_up (x / 2))"
      using True by (subst expo_up.simps) simp
    ultimately show ?thesis by simp
  next
    case False
    then have "expo_up x = 0" by (subst expo_up.simps) simp
    then show ?thesis using False "1.prems" by simp
  qed
qed

lemma expo_down_bounds:
  "0 < x \<Longrightarrow> x < 1 \<Longrightarrow> 1 \<le> x * 2 ^ expo_down x \<and> x * 2 ^ expo_down x < 2"
proof (induction x rule: expo_down.induct)
  case (1 x)
  have e: "expo_down x = Suc (expo_down (2 * x))"
    using "1.prems" by (subst expo_down.simps) simp
  show ?case
  proof (cases "2 * x < 1")
    case True
    then have "1 \<le> 2 * x * 2 ^ expo_down (2 * x) \<and> 2 * x * 2 ^ expo_down (2 * x) < 2"
      using "1.IH" "1.prems" by simp
    then show ?thesis by (simp add: e mult.assoc mult.left_commute)
  next
    case False
    then have "expo_down (2 * x) = 0" by (subst expo_down.simps) simp
    then show ?thesis using False "1.prems" by (simp add: e)
  qed
qed

lemma expo_bounds:
  assumes "x \<noteq> 0"
  shows "2 powi expo x \<le> \<bar>x\<bar> \<and> \<bar>x\<bar> < 2 powi (expo x + 1)"
proof (cases "1 \<le> \<bar>x\<bar>")
  case True
  then have "expo x = int (expo_up \<bar>x\<bar>)" by (simp add: expo_def)
  then show ?thesis using expo_up_bounds [OF True]
    by (simp add: power_int_add)
next
  case False
  then have e: "expo x = - int (expo_down \<bar>x\<bar>)" by (simp add: expo_def)
  have b: "1 \<le> \<bar>x\<bar> * 2 ^ expo_down \<bar>x\<bar> \<and> \<bar>x\<bar> * 2 ^ expo_down \<bar>x\<bar> < 2"
    using expo_down_bounds [of "\<bar>x\<bar>"] assms False by simp
  have p1: "(2::real) powi (- int (expo_down \<bar>x\<bar>)) = 1 / 2 ^ expo_down \<bar>x\<bar>"
    by (simp add: power_int_minus field_simps)
  have p2: "(2::real) powi (- int (expo_down \<bar>x\<bar>) + 1) = 2 / 2 ^ expo_down \<bar>x\<bar>"
    by (simp add: power_int_diff)
  show ?thesis using b unfolding e p1 p2
    by (simp add: field_simps)
qed


lemma powi2_less_D: "(2::real) powi a < 2 powi b \<Longrightarrow> a < b"
  using power_int_increasing [of b a "2::real"] by (cases "a < b") auto

lemma expo_unique:
  assumes "2 powi e \<le> \<bar>x\<bar>" and "\<bar>x\<bar> < 2 powi (e + 1)"
  shows "expo x = e"
proof -
  have "0 < (2::real) powi e" by simp
  then have nz: "x \<noteq> 0" using assms(1) by linarith
  note b = expo_bounds [OF nz]
  have "(2::real) powi e < 2 powi (expo x + 1)" using assms(1) b by linarith
  then have "e < expo x + 1" by (rule powi2_less_D)
  moreover have "(2::real) powi expo x < 2 powi (e + 1)" using assms(2) b by linarith
  then have "expo x < e + 1" by (rule powi2_less_D)
  ultimately show ?thesis by simp
qed



lemma roundTiesToEven_error: "\<bar>of_int (roundTiesToEven x) - x\<bar> \<le> 1 / 2"
  unfolding roundTiesToEven_def Let_def by (simp; linarith)

lemma roundTiesToEven_of_int [simp]: "roundTiesToEven (of_int n) = n"
  by (simp add: roundTiesToEven_def)

lemma roundTiesToEven_mono:
  assumes "x \<le> y"
  shows "roundTiesToEven x \<le> roundTiesToEven y"
proof (cases "\<lfloor>x\<rfloor> = \<lfloor>y\<rfloor>")
  case True
  then show ?thesis using assms unfolding roundTiesToEven_def Let_def by (simp; linarith)
next
  case False
  then have "\<lfloor>x\<rfloor> + 1 \<le> \<lfloor>y\<rfloor>" using floor_mono [OF assms] by linarith
  moreover have "roundTiesToEven x \<le> \<lfloor>x\<rfloor> + 1"
    unfolding roundTiesToEven_def Let_def by simp
  moreover have "\<lfloor>y\<rfloor> \<le> roundTiesToEven y"
    unfolding roundTiesToEven_def Let_def by simp
  ultimately show ?thesis by linarith
qed

lemma ulp_pos [simp]: "0 < ulp x"
  by (simp add: ulp_def)

lemma ulp_nonneg [simp]: "0 \<le> ulp x"
  by (simp add: ulp_def)

lemma ulp_nonzero [simp]: "ulp x \<noteq> 0"
  by (simp add: ulp_def)

lemma fl_zero [simp]: "fl 0 = 0"
  by (simp add: fl_def roundTiesToEven_def)

lemma fl_error: "\<bar>fl x - x\<bar> \<le> ulp x / 2"
proof -
  have "\<bar>of_int (roundTiesToEven (x / ulp x)) - x / ulp x\<bar> * ulp x \<le> 1 / 2 * ulp x"
    by (intro mult_right_mono roundTiesToEven_error) simp
  moreover have "\<bar>of_int (roundTiesToEven (x / ulp x)) - x / ulp x\<bar> * ulp x = \<bar>fl x - x\<bar>"
  proof -
    have "\<bar>of_int (roundTiesToEven (x / ulp x)) - x / ulp x\<bar> * ulp x
          = \<bar>(of_int (roundTiesToEven (x / ulp x)) - x / ulp x) * ulp x\<bar>"
      by (simp add: abs_mult)
    also have "(of_int (roundTiesToEven (x / ulp x)) - x / ulp x) * ulp x = fl x - x"
      using ulp_pos [of x] by (simp add: fl_def left_diff_distrib)
    finally show ?thesis .
  qed
  ultimately show ?thesis by simp
qed

lemma ulp_le: 
  assumes "x \<noteq> 0"
  shows "ulp x \<le> \<bar>x\<bar> / 2 ^ 52"
proof -
  have "ulp x = 2 powi expo x / 2 ^ 52"
    by (simp add: ulp_def power_int_diff)
  then show ?thesis using expo_bounds [OF assms] by (simp add: divide_right_mono)
qed

lemma fl_rel_error: "\<bar>fl x - x\<bar> \<le> \<bar>x\<bar> / 2 ^ 53"
proof (cases "x = 0")
  case True
  then show ?thesis by simp
next
  case False
  have "\<bar>fl x - x\<bar> \<le> ulp x / 2" by (rule fl_error)
  also have "\<dots> \<le> (\<bar>x\<bar> / 2 ^ 52) / 2" using ulp_le [OF False] by simp
  finally show ?thesis by simp
qed

lemma fl_eval:
  assumes "2 powi e \<le> \<bar>x\<bar>" and "\<bar>x\<bar> < 2 powi (e + 1)"
  shows "fl x = of_int (roundTiesToEven (x / 2 powi (e - 52))) * 2 powi (e - 52)"
  by (simp add: fl_def ulp_def expo_unique [OF assms])

lemma fl_nonneg: "0 \<le> x \<Longrightarrow> 0 \<le> fl x"
proof -
  assume "0 \<le> x"
  then have "0 \<le> x / ulp x" by simp
  then have "roundTiesToEven 0 \<le> roundTiesToEven (x / ulp x)" by (rule roundTiesToEven_mono)
  then show ?thesis by (simp add: fl_def roundTiesToEven_def)
qed


lemma fl_mono_same:
  assumes "x \<le> y" and "expo x = expo y"
  shows "fl x \<le> fl y"
proof -
  have u: "ulp x = ulp y" by (simp add: ulp_def assms(2))
  have "x / ulp y \<le> y / ulp y" using assms(1) by (simp add: divide_right_mono)
  then have "roundTiesToEven (x / ulp y) \<le> roundTiesToEven (y / ulp y)"
    by (rule roundTiesToEven_mono)
  then show ?thesis by (simp add: fl_def u mult_right_mono)
qed

lemma fl_upper:
  assumes "0 < x"
  shows "fl x \<le> 2 powi (expo x + 1)"
proof -
  have nz: "x \<noteq> 0" using assms by simp
  have "x < 2 powi (expo x + 1)" using expo_bounds [OF nz] assms by simp
  also have "(2::real) powi (expo x + 1) = 2 ^ 53 * ulp x"
    by (simp add: ulp_def power_int_diff power_int_add)
  finally have "x / ulp x \<le> of_int (2 ^ 53)" by (simp add: field_simps)
  then have "roundTiesToEven (x / ulp x) \<le> roundTiesToEven (of_int (2 ^ 53))"
    by (rule roundTiesToEven_mono)
  then have "roundTiesToEven (x / ulp x) \<le> 2 ^ 53" by (simp only: roundTiesToEven_of_int)
  then have "(of_int (roundTiesToEven (x / ulp x)) :: real) \<le> of_int (2 ^ 53)"
    by (simp only: of_int_le_iff)
  then have "fl x \<le> 2 ^ 53 * ulp x" by (simp add: fl_def mult_right_mono)
  also have "\<dots> = 2 powi (expo x + 1)"
    by (simp add: ulp_def power_int_diff power_int_add)
  finally show ?thesis .
qed

lemma fl_lower:
  assumes "0 < x"
  shows "2 powi expo x \<le> fl x"
proof -
  have nz: "x \<noteq> 0" using assms by simp
  have e: "(2::real) powi expo x = 2 ^ 52 * ulp x"
    by (simp add: ulp_def power_int_diff)
  have "2 powi expo x \<le> x" using expo_bounds [OF nz] assms by simp
  then have "of_int (2 ^ 52) \<le> x / ulp x" unfolding e by (simp add: field_simps)
  then have "roundTiesToEven (of_int (2 ^ 52)) \<le> roundTiesToEven (x / ulp x)"
    by (rule roundTiesToEven_mono)
  then have "2 ^ 52 \<le> roundTiesToEven (x / ulp x)" by (simp only: roundTiesToEven_of_int)
  then have "(of_int (2 ^ 52) :: real) \<le> of_int (roundTiesToEven (x / ulp x))"
    by (simp only: of_int_le_iff)
  then have "2 ^ 52 * ulp x \<le> fl x" by (simp add: fl_def mult_right_mono)
  then show ?thesis by (simp only: e)
qed

lemma fl_mono:
  assumes "0 \<le> x" and "x \<le> y"
  shows "fl x \<le> fl y"
proof (cases "x = 0")
  case True
  then show ?thesis using fl_nonneg [of y] assms by simp
next
  case False
  then have px: "0 < x" and py: "0 < y" using assms by auto
  have nz: "x \<noteq> 0" "y \<noteq> 0" using px py by auto
  have "(2::real) powi expo x < 2 powi (expo y + 1)"
    using expo_bounds [OF nz(1)] expo_bounds [OF nz(2)] px py assms(2) by simp
  then have le: "expo x < expo y + 1" by (rule powi2_less_D)
  show ?thesis
  proof (cases "expo x = expo y")
    case True
    then show ?thesis using assms(2) by (rule fl_mono_same [rotated])
  next
    case False
    then have "expo x + 1 \<le> expo y" using le by simp
    then have "(2::real) powi (expo x + 1) \<le> 2 powi expo y"
      by (intro power_int_increasing) auto
    then show ?thesis using fl_upper [OF px] fl_lower [OF py] by linarith
  qed
qed

lemma fl_of_int:
  assumes "\<bar>n\<bar> \<le> 2 ^ 53"
  shows "fl (of_int n) = of_int n"
proof (cases "n = 0")
  case True
  then show ?thesis by simp
next
  case False
  define e where "e = expo (of_int n)"
  have nz: "(of_int n :: real) \<noteq> 0" using False by simp
  have b: "2 powi e \<le> \<bar>of_int n :: real\<bar>" using expo_bounds [OF nz] by (simp add: e_def)
  have "\<bar>of_int n :: real\<bar> \<le> 2 ^ 53" using assms by (metis of_int_abs of_int_le_iff of_int_numeral of_int_power)
  then have "(2::real) powi e < 2 powi 54" using b by simp
  then have e54: "e < 54" by (rule powi2_less_D)
  show ?thesis
  proof (cases "e \<le> 52")
    case True
    define k where "k = nat (52 - e)"
    have u: "ulp (of_int n) = 1 / 2 ^ k"
      using True by (simp add: ulp_def e_def [symmetric] k_def power_int_def power_divide)
    have "of_int n / ulp (of_int n) = (of_int (n * 2 ^ k) :: real)" by (simp add: u)
    then have "roundTiesToEven (of_int n / ulp (of_int n)) = n * 2 ^ k"
      by (simp only: roundTiesToEven_of_int)
    then show ?thesis by (simp add: fl_def) (simp add: u)
  next
    case False
    then have e: "e = 53" using e54 by simp
    have "(2::real) ^ 53 \<le> \<bar>of_int n\<bar>" using b by (simp add: e)
    then have "2 ^ 53 \<le> \<bar>n\<bar>" by (metis of_int_abs of_int_le_iff of_int_numeral of_int_power)
    then have n: "\<bar>n\<bar> = 2 ^ 53" using assms by simp
    have u: "ulp (of_int n) = 2" by (simp add: ulp_def e_def [symmetric] e)
    from n have "n = 2 ^ 53 \<or> n = - (2 ^ 53)" by linarith
    then have "of_int n / ulp (of_int n) = (of_int (n div 2) :: real)"
      unfolding u by auto
    then have "roundTiesToEven (of_int n / ulp (of_int n)) = n div 2"
      by (simp only: roundTiesToEven_of_int)
    moreover have "n div 2 * 2 = n" using \<open>n = 2 ^ 53 \<or> n = - (2 ^ 53)\<close> by auto
    ultimately show ?thesis unfolding fl_def u by (metis of_int_mult of_int_numeral)
  qed
qed

text \<open>The binary64 number nearest to one tenth.\<close>

lemma fl_tenth: "fl (1 / 10) = 3602879701896397 / 36028797018963968"
  by code_simp

section \<open>Properties of the formatted text\<close>

lemma decimalDigits_small: "n < 10 \<Longrightarrow> decimalDigits n = [digitChar n]"
  by (subst decimalDigits.simps) simp

lemma decimalDigits_large:
  "10 \<le> n \<Longrightarrow> decimalDigits n = decimalDigits (n div 10) @ [digitChar (n mod 10)]"
  by (subst decimalDigits.simps) simp

lemma digit_cases:
  assumes "d < 10"
  obtains "d = 0" | "d = 1" | "d = 2" | "d = 3" | "d = 4" | "d = 5" | "d = 6" | "d = 7"
    | "d = 8" | "d = (9::nat)"
proof -
  have "d \<in> {0, 1, 2, 3, 4, 5, 6, 7, 8, 9}" using assms by auto
  then show thesis using that by blast
qed

lemma digitVal_digitChar: "d < 10 \<Longrightarrow> digitVal (digitChar d) = Some d"
  by (erule digit_cases) (simp_all add: digitVal_def digitChar_def)

lemma digitChar_neq: "d < 10 \<Longrightarrow> digitChar d \<noteq> CHR ''.'' \<and> digitChar d \<noteq> CHR ''-''"
  by (erule digit_cases) (simp_all add: digitChar_def)

lemma digitsValue_append:
  "digitsValue acc (xs @ ys) =
     (case digitsValue acc xs of None \<Rightarrow> None | Some a \<Rightarrow> digitsValue a ys)"
  by (induction xs arbitrary: acc) (auto split: option.splits)

lemma digitsValue_decimalDigits: "digitsValue 0 (decimalDigits n) = Some n"
proof (induction n rule: decimalDigits.induct)
  case (1 n)
  show ?case
  proof (cases "n < 10")
    case True
    then show ?thesis by (simp add: decimalDigits_small digitVal_digitChar)
  next
    case False
    then have "digitsValue 0 (decimalDigits (n div 10)) = Some (n div 10)"
      using "1.IH" by simp
    moreover have "digitVal (digitChar (n mod 10)) = Some (n mod 10)"
      by (simp add: digitVal_digitChar)
    ultimately show ?thesis using False
      by (simp add: decimalDigits_large digitsValue_append)
  qed
qed

lemma decimalDigits_chars:
  "c \<in> set (decimalDigits n) \<Longrightarrow> c \<noteq> CHR ''.'' \<and> c \<noteq> CHR ''-''"
proof (induction n rule: decimalDigits.induct)
  case (1 n)
  show ?case
  proof (cases "n < 10")
    case True
    then show ?thesis using "1.prems" digitChar_neq [of n] by (simp add: decimalDigits_small)
  next
    case False
    then show ?thesis using "1.prems" "1.IH" digitChar_neq [of "n mod 10"]
      by (auto simp: decimalDigits_large)
  qed
qed

lemma decimalDigits_nonempty: "decimalDigits n \<noteq> []"
  by (cases "n < 10") (simp_all add: decimalDigits_small decimalDigits_large)

lemma decimalDigits_length_small: "n < 10 \<Longrightarrow> length (decimalDigits n) = 1"
  by (simp add: decimalDigits_small)

lemma decimalDigits_split100:
  assumes "100 \<le> n"
  shows "decimalDigits n =
           decimalDigits (n div 100) @ [digitChar (n div 10 mod 10), digitChar (n mod 10)]"
proof -
  have a: "decimalDigits n = decimalDigits (n div 10) @ [digitChar (n mod 10)]"
    using assms by (simp add: decimalDigits_large)
  have "10 \<le> n div 10" using assms by simp
  then have b: "decimalDigits (n div 10) =
                  decimalDigits (n div 10 div 10) @ [digitChar (n div 10 mod 10)]"
    by (rule decimalDigits_large)
  have c: "n div 10 div 10 = n div 100" using div_mult2_eq [of n 10 10] by simp
  show ?thesis by (simp add: a b c)
qed

lemma toFixed2_nonneg:
  assumes "0 \<le> x"
  defines "n \<equiv> nat \<lfloor>x * 100 + 1 / 2\<rfloor>"
  shows "toFixed2 (Fin x) =
           decimalDigits (n div 100) @ ''.'' @ [digitChar (n div 10 mod 10), digitChar (n mod 10)]"
proof -
  have nx: "\<not> x < 0" using assms(1) by simp
  consider "n < 10" | "10 \<le> n" "n < 100" | "100 \<le> n" by linarith
  then show ?thesis
  proof cases
    case 1
    then have "n div 100 = 0" "n div 10 mod 10 = 0" "n mod 10 = n" by simp_all
    then show ?thesis using 1 nx
      by (simp add: toFixed2_def n_def [symmetric] Let_def decimalDigits_small digitChar_def
                    numeral_2_eq_2)
  next
    case 2
    then have d: "decimalDigits n = [digitChar (n div 10), digitChar (n mod 10)]"
      by (simp add: decimalDigits_large decimalDigits_small)
    have "n div 100 = 0" "n div 10 mod 10 = n div 10" using 2 by simp_all
    then show ?thesis using nx
      by (simp add: toFixed2_def n_def [symmetric] Let_def d decimalDigits_small digitChar_def)
  next
    case 3
    have "decimalDigits (n div 100) \<noteq> []" by (rule decimalDigits_nonempty)
    then have "0 < length (decimalDigits (n div 100))" by simp
    then show ?thesis using nx
      by (simp add: toFixed2_def n_def [symmetric] Let_def decimalDigits_split100 [OF 3])
  qed
qed

lemma toFixed2_neg:
  assumes "x < 0"
  shows "toFixed2 (Fin x) = CHR ''-'' # toFixed2 (Fin (- x))"
  using assms by (simp add: toFixed2_def Let_def)

lemma takeWhile_digits:
  "takeWhile (\<lambda>c. c \<noteq> CHR ''.'') (decimalDigits q @ CHR ''.'' # r) = decimalDigits q"
  using decimalDigits_chars [of _ q] by (simp add: takeWhile_append2 takeWhile_tail)

lemma unsignedValue_fixed:
  assumes "a < 10" "b < 10"
  shows "unsignedValue (decimalDigits q @ ''.'' @ [digitChar a, digitChar b])
           = Some (real q + real (10 * a + b) / 100)"
  using assms
  by (simp add: unsignedValue_def Let_def takeWhile_digits decimalDigits_nonempty
                digitsValue_decimalDigits digitVal_digitChar)

lemma decimalValue_toFixed2_nonneg:
  assumes "0 \<le> x"
  shows "decimalValue (toFixed2 (Fin x)) = Some (real (nat \<lfloor>x * 100 + 1 / 2\<rfloor>) / 100)"
proof -
  define n where "n = nat \<lfloor>x * 100 + 1 / 2\<rfloor>"
  have t: "toFixed2 (Fin x) =
             decimalDigits (n div 100) @ ''.'' @ [digitChar (n div 10 mod 10), digitChar (n mod 10)]"
    unfolding n_def using assms by (rule toFixed2_nonneg)
  obtain c cs where cs: "decimalDigits (n div 100) = c # cs"
    using decimalDigits_nonempty [of "n div 100"] by (cases "decimalDigits (n div 100)") auto
  then have "c \<noteq> CHR ''-''" using decimalDigits_chars [of c "n div 100"] by simp
  then have "decimalValue (toFixed2 (Fin x)) = unsignedValue (toFixed2 (Fin x))"
    by (simp add: t cs decimalValue_def)
  also have "\<dots> = Some (real (n div 100) + real (10 * (n div 10 mod 10) + n mod 10) / 100)"
    unfolding t by (rule unsignedValue_fixed) simp_all
  also have "10 * (n div 10 mod 10) + n mod 10 = n mod 100"
    using mod_mult2_eq [of n 10 10] by simp
  also have "real (n div 100) + real (n mod 100) / 100 = real n / 100"
  proof -
    have "real n = real (n div 100 * 100 + n mod 100)" by simp
    then show ?thesis by (simp only: of_nat_add of_nat_mult) simp
  qed
  finally show ?thesis by (simp add: n_def)
qed

lemma decimalValue_toFixed2_lower:
  assumes "real_of_int k \<le> x" and "0 \<le> k"
  shows "\<exists>v. decimalValue (toFixed2 (Fin x)) = Some v \<and> real_of_int k \<le> v"
proof -
  define z where "z = \<lfloor>x * 100 + 1 / 2\<rfloor>"
  have x0: "0 \<le> x" using assms by linarith
  have "real_of_int (k * 100) \<le> x * 100 + 1 / 2" using assms(1) by simp
  then have kz: "k * 100 \<le> z" unfolding z_def by (simp only: le_floor_iff)
  then have "0 \<le> z" using assms(2) by linarith
  then have "real (nat z) = real_of_int z" by simp
  moreover have "real_of_int (k * 100) \<le> real_of_int z" using kz by (simp only: of_int_le_iff)
  ultimately have "real_of_int k \<le> real (nat z) / 100" by simp
  moreover have "decimalValue (toFixed2 (Fin x)) = Some (real (nat z) / 100)"
    unfolding z_def by (rule decimalValue_toFixed2_nonneg [OF x0])
  ultimately show ?thesis by blast
qed

lemma fl_five: "fl 5 = 5"
  using fl_of_int [of 5] by simp

lemma toFixed2_eval:
  assumes "0 \<le> x" and "nat \<lfloor>x * 100 + 1 / 2\<rfloor> = n"
  shows "toFixed2 (Fin x) =
           decimalDigits (n div 100) @ ''.'' @ [digitChar (n div 10 mod 10), digitChar (n mod 10)]"
  using toFixed2_nonneg [OF assms(1)] assms(2) by simp

lemma unsignedValue_toFixed2:
  assumes "0 \<le> x"
  shows "unsignedValue (toFixed2 (Fin x)) = Some (real (nat \<lfloor>x * 100 + 1 / 2\<rfloor>) / 100)"
proof -
  define n where "n = nat \<lfloor>x * 100 + 1 / 2\<rfloor>"
  have t: "toFixed2 (Fin x) =
             decimalDigits (n div 100) @ ''.'' @ [digitChar (n div 10 mod 10), digitChar (n mod 10)]"
    unfolding n_def using assms by (rule toFixed2_nonneg)
  obtain c cs where cs: "decimalDigits (n div 100) = c # cs"
    using decimalDigits_nonempty [of "n div 100"] by (cases "decimalDigits (n div 100)") auto
  then have "c \<noteq> CHR ''-''" using decimalDigits_chars [of c "n div 100"] by simp
  then have "decimalValue (toFixed2 (Fin x)) = unsignedValue (toFixed2 (Fin x))"
    by (simp add: t cs decimalValue_def)
  then show ?thesis using decimalValue_toFixed2_nonneg [OF assms] by simp
qed

lemma decimalValue_toFixed2_neg:
  assumes "x < 0"
  shows "decimalValue (toFixed2 (Fin x)) = Some (- (real (nat \<lfloor>- x * 100 + 1 / 2\<rfloor>) / 100))"
proof -
  have "0 \<le> - x" using assms by simp
  then have "unsignedValue (toFixed2 (Fin (- x))) = Some (real (nat \<lfloor>- x * 100 + 1 / 2\<rfloor>) / 100)"
    by (rule unsignedValue_toFixed2)
  then show ?thesis using assms by (simp add: toFixed2_neg decimalValue_def)
qed

section \<open>Properties of the query operators\<close>

lemma groupBy_iff:
  "(k, g) \<in> set (groupBy key rows) \<longleftrightarrow> k \<in> key ` set rows \<and> g = filter (\<lambda>r. key r = k) rows"
  by (auto simp: groupBy_def)

lemma groupBy_keys: "map fst (groupBy key rows) = remdups (map key rows)"
  by (simp add: groupBy_def comp_def)

lemma groupBy_distinct: "distinct (map fst (groupBy key rows))"
  by (simp add: groupBy_keys)

lemma groupBy_nonempty:
  assumes "(k, g) \<in> set (groupBy key rows)"
  shows "g \<noteq> []"
proof -
  from assms obtain r where "r \<in> set rows" "key r = k" and g: "g = filter (\<lambda>r. key r = k) rows"
    by (auto simp: groupBy_iff)
  then have "r \<in> set g" by simp
  then show ?thesis by auto
qed

lemma foldl_add_nat: "foldl (\<lambda>s x. s + f x) (a::nat) xs = a + sum_list (map f xs)"
  by (induction xs arbitrary: a) simp_all

lemma foldl_add_int: "foldl (\<lambda>s x. s + f x) (a::int) xs = a + sum_list (map f xs)"
  by (induction xs arbitrary: a) simp_all

lemma sum_list_lower:
  assumes "\<forall>x \<in> set xs. (c::nat) \<le> f x"
  shows "c * length xs \<le> sum_list (map f xs)"
  using assms by (induction xs) auto

lemma sum_list_single:
  fixes c :: "'b::comm_monoid_add"
  assumes "distinct ks" and "a \<in> set ks"
  shows "(\<Sum>k\<leftarrow>ks. if a = k then c else 0) = c"
  using assms
proof (induction ks)
  case Nil
  then show ?case by simp
next
  case (Cons k ks)
  show ?case
  proof (cases "a = k")
    case True
    then have "a \<notin> set ks" using Cons.prems by simp
    then have "(\<Sum>k\<leftarrow>ks. if a = k then c else 0) = 0"
      by (induction ks) auto
    then show ?thesis using True by simp
  next
    case False
    then show ?thesis using Cons by simp
  qed
qed

lemma sum_list_by_key:
  fixes f :: "'a \<Rightarrow> 'b::comm_monoid_add"
  assumes "distinct ks" and "key ` set rows \<subseteq> set ks"
  shows "(\<Sum>k\<leftarrow>ks. sum_list (map f (filter (\<lambda>r. key r = k) rows))) = sum_list (map f rows)"
  using assms(2)
proof (induction rows)
  case Nil
  then show ?case by simp
next
  case (Cons x xs)
  have "(\<Sum>k\<leftarrow>ks. sum_list (map f (filter (\<lambda>r. key r = k) (x # xs))))
          = (\<Sum>k\<leftarrow>ks. (if key x = k then f x else 0)
                        + sum_list (map f (filter (\<lambda>r. key r = k) xs)))"
    by (intro arg_cong [where f = sum_list] map_cong) auto
  also have "\<dots> = (\<Sum>k\<leftarrow>ks. if key x = k then f x else 0)
                    + (\<Sum>k\<leftarrow>ks. sum_list (map f (filter (\<lambda>r. key r = k) xs)))"
    by (rule sum_list_addf)
  also have "(\<Sum>k\<leftarrow>ks. if key x = k then f x else 0) = f x"
    using Cons.prems assms(1) by (intro sum_list_single) auto
  also have "(\<Sum>k\<leftarrow>ks. sum_list (map f (filter (\<lambda>r. key r = k) xs))) = sum_list (map f xs)"
    using Cons by simp
  finally show ?case by simp
qed

lemma sum_list_groupBy:
  fixes f :: "'a \<Rightarrow> 'b::comm_monoid_add"
  shows "(\<Sum>(k, g)\<leftarrow>groupBy key rows. sum_list (map f g)) = sum_list (map f rows)"
proof -
  have "(\<Sum>(k, g)\<leftarrow>groupBy key rows. sum_list (map f g))
          = (\<Sum>k\<leftarrow>remdups (map key rows). sum_list (map f (filter (\<lambda>r. key r = k) rows)))"
    by (simp add: groupBy_def comp_def)
  also have "\<dots> = sum_list (map f rows)"
    by (rule sum_list_by_key) auto
  finally show ?thesis .
qed

lemma length_groupBy:
  "(\<Sum>(k, g)\<leftarrow>groupBy key rows. length g) = length rows"
  using sum_list_groupBy [of "\<lambda>_. 1::nat" key rows] by (simp add: sum_list_triv)

lemma length_groupBy_snd: "(\<Sum>x\<leftarrow>groupBy key rows. length (snd x)) = length rows"
  using length_groupBy [of key rows] by (simp add: case_prod_unfold)

lemma sum_list_sort_key:
  fixes f :: "'a \<Rightarrow> 'b::comm_monoid_add"
  shows "sum_list (map f (sort_key k xs)) = sum_list (map f xs)"
proof -
  have "mset (map f (sort_key k xs)) = mset (map f xs)" by simp
  then show ?thesis by (metis sum_mset_sum_list)
qed

lemma leftJoin_append: "leftJoin (xs @ ys) zs on = leftJoin xs zs on @ leftJoin ys zs on"
  by (simp add: leftJoin_def)

lemma leftJoin_Nil: "leftJoin [] zs on = []"
  by (simp add: leftJoin_def)

lemma leftJoin_concat:
  "leftJoin (concat xss) zs on = concat (map (\<lambda>xs. leftJoin xs zs on) xss)"
  by (induction xss) (simp_all add: leftJoin_Nil leftJoin_append)

lemma leftJoin_map:
  "leftJoin (map f xs) zs on = concat (map (\<lambda>x. map (Pair (f x)) (nullable (filter (on (f x)) zs))) xs)"
  by (simp add: leftJoin_def comp_def)

lemma concat_map_single:
  assumes "distinct xs" and "a \<in> set xs" and "\<forall>x \<in> set xs. x \<noteq> a \<longrightarrow> f x = []"
  shows "concat (map f xs) = f a"
  using assms
proof (induction xs)
  case Nil
  then show ?case by simp
next
  case (Cons x xs)
  show ?case
  proof (cases "x = a")
    case True
    then have "\<forall>y \<in> set xs. f y = []" using Cons.prems by auto
    then have "concat (map f xs) = []" by simp
    then show ?thesis using True by simp
  next
    case False
    then have "f x = []" using Cons.prems by simp
    moreover have "concat (map f xs) = f a" using Cons False by simp
    ultimately show ?thesis by simp
  qed
qed

lemma set_nullable: "set (nullable ys) = (if ys = [] then {None} else Some ` set ys)"
  by (cases ys) (simp_all add: nullable_def)

lemma nullable_nonempty: "nullable ys \<noteq> []"
  by (cases ys) (simp_all add: nullable_def)

lemma nullable_not_None: "filter (\<lambda>m. m \<noteq> None) (nullable ys) = map Some ys"
  by (cases ys) (simp_all add: nullable_def filter_map comp_def)

lemma filter_unique_key:
  assumes "distinct (map key ys)" and "y \<in> set ys"
  shows "filter (\<lambda>z. key z = key y) ys = [y]"
  using assms
proof (induction ys)
  case Nil
  then show ?case by simp
next
  case (Cons z zs)
  show ?case
  proof (cases "z = y")
    case True
    then have "key y \<notin> key ` set zs" using Cons.prems by simp
    then have "filter (\<lambda>z. key z = key y) zs = []"
      by (simp add: filter_empty_conv) (metis imageI)
    then show ?thesis using True by simp
  next
    case False
    then have y: "y \<in> set zs" using Cons.prems by simp
    then have "key z \<noteq> key y" using Cons.prems by auto
    then show ?thesis using Cons y by simp
  qed
qed

lemma filter_key_at_most_one:
  assumes "distinct (map key ys)"
  shows "filter (\<lambda>z. key z = v) ys = [] \<or> (\<exists>y. filter (\<lambda>z. key z = v) ys = [y])"
proof (cases "filter (\<lambda>z. key z = v) ys = []")
  case True
  then show ?thesis by simp
next
  case False
  then obtain y where "y \<in> set ys" "key y = v" by (auto simp: filter_empty_conv)
  then show ?thesis using filter_unique_key [OF assms, of y] by auto
qed

lemma nullable_unique_key:
  assumes "distinct (map key ys)" and "p \<in> set (nullable ys)"
  shows "filter (\<lambda>q. map_option key q = map_option key p) (nullable ys) = [p]"
proof (cases "ys = []")
  case True
  then show ?thesis using assms(2) by (simp add: set_nullable nullable_def)
next
  case False
  then obtain y where y: "y \<in> set ys" and p: "p = Some y" using assms(2) by (auto simp: set_nullable)
  have n: "nullable ys = map Some ys" using False by (cases ys) (simp_all add: nullable_def)
  have "filter (\<lambda>q. map_option key q = map_option key p) (map Some ys)
          = map Some (filter (\<lambda>z. key z = key y) ys)"
    by (simp add: filter_map comp_def p)
  then show ?thesis using filter_unique_key [OF assms(1) y] by (simp add: n p)
qed

lemma nullable_single:
  assumes "ys = [] \<or> (\<exists>y. ys = [y])"
  shows "\<exists>c. nullable ys = [c]"
  using assms by (auto simp: nullable_def)

section \<open>The accuracy of a formatted percentage\<close>

text \<open>
  A percentage is computed with two roundings and printed with a third: its
  text is within half a hundredth, and a relative \<open>10^-13\<close>, of the exact ratio.
\<close>

lemma ratePercent_pos:
  "0 < den \<Longrightarrow> ratePercent num den = toFixed2 (Fin (fmul (fdiv (real num) (real den)) 100))"
  by (simp add: ratePercent_def)

lemma percent_error:
  assumes "0 \<le> q"
  shows "\<bar>fmul (fl q) 100 - 100 * q\<bar> \<le> q / 10 ^ 13" and "0 \<le> fmul (fl q) 100"
proof -
  define a where "a = fl q"
  define b where "b = fl (a * 100)"
  have a0: "0 \<le> a" unfolding a_def using assms by (rule fl_nonneg)
  have ea: "\<bar>a - q\<bar> \<le> q / 2 ^ 53" using fl_rel_error [of q] assms by (simp add: a_def)
  have eb: "\<bar>b - a * 100\<bar> \<le> a * 100 / 2 ^ 53"
    using fl_rel_error [of "a * 100"] a0 by (simp add: b_def)
  have "a - q \<le> q / 2 ^ 53" using ea by (simp only: abs_le_iff)
  then have "a \<le> q + q / 2 ^ 53" by simp
  also have "\<dots> \<le> 2 * q" using assms by (simp add: field_simps)
  finally have a2: "a \<le> 2 * q" .
  have "b - 100 * q = (b - a * 100) + 100 * (a - q)" by simp
  then have "\<bar>b - 100 * q\<bar> \<le> \<bar>b - a * 100\<bar> + \<bar>100 * (a - q)\<bar>"
    by (metis abs_triangle_ineq)
  also have "\<bar>100 * (a - q)\<bar> = 100 * \<bar>a - q\<bar>" by (subst abs_mult) simp
  finally have "\<bar>b - 100 * q\<bar> \<le> \<bar>b - a * 100\<bar> + 100 * \<bar>a - q\<bar>" .
  also have "\<dots> \<le> a * 100 / 2 ^ 53 + 100 * (q / 2 ^ 53)"
    using ea eb by (intro add_mono mult_left_mono) simp_all
  also have "\<dots> \<le> (2 * q) * 100 / 2 ^ 53 + 100 * (q / 2 ^ 53)"
    using a2 by (simp add: divide_right_mono)
  also have "\<dots> = q * (300 / 2 ^ 53)" by (simp add: field_simps)
  also have "\<dots> \<le> q * (1 / 10 ^ 13)" using assms by (intro mult_left_mono) simp_all
  finally show "\<bar>fmul (fl q) 100 - 100 * q\<bar> \<le> q / 10 ^ 13"
    by (simp add: fmul_def a_def b_def)
  show "0 \<le> fmul (fl q) 100"
    unfolding fmul_def using a0 by (intro fl_nonneg) (simp add: a_def)
qed

lemma toFixed2_error:
  assumes "0 \<le> x"
  shows "\<exists>v. decimalValue (toFixed2 (Fin x)) = Some v \<and> \<bar>v - x\<bar> \<le> 1 / 200"
proof -
  define z where "z = \<lfloor>x * 100 + 1 / 2\<rfloor>"
  have "0 \<le> z" unfolding z_def using assms by simp
  then have r: "real (nat z) = real_of_int z" by simp
  have "real_of_int z \<le> x * 100 + 1 / 2" "x * 100 + 1 / 2 < real_of_int z + 1"
    unfolding z_def by linarith+
  then have "real_of_int z / 100 \<le> x + 1 / 200" "x - 1 / 200 \<le> real_of_int z / 100"
    by linarith+
  then have "\<bar>real (nat z) / 100 - x\<bar> \<le> 1 / 200" unfolding r by linarith
  moreover have "decimalValue (toFixed2 (Fin x)) = Some (real (nat z) / 100)"
    unfolding z_def by (rule decimalValue_toFixed2_nonneg [OF assms])
  ultimately show ?thesis by blast
qed

lemma ratePercent_accuracy:
  assumes "0 < den"
  shows "\<exists>v. decimalValue (ratePercent num den) = Some v \<and>
             \<bar>v - 100 * (real num / real den)\<bar> \<le> 1 / 200 + (real num / real den) / 10 ^ 13"
proof -
  define q where "q = real num / real den"
  define x where "x = fmul (fl q) 100"
  have q0: "0 \<le> q" by (simp add: q_def)
  have x: "\<bar>x - 100 * q\<bar> \<le> q / 10 ^ 13" and x0: "0 \<le> x"
    unfolding x_def using percent_error [OF q0] by simp_all
  obtain v where v: "decimalValue (toFixed2 (Fin x)) = Some v" "\<bar>v - x\<bar> \<le> 1 / 200"
    using toFixed2_error [OF x0] by blast
  have "\<bar>v - 100 * q\<bar> \<le> 1 / 200 + q / 10 ^ 13" using v(2) x by linarith
  moreover have "ratePercent num den = toFixed2 (Fin x)"
    using assms by (simp add: ratePercent_pos x_def q_def fdiv_def)
  ultimately show ?thesis using v(1) by (auto simp: q_def)
qed

lemma toFixed2_between:
  assumes "real n - 1 / 2 \<le> x * 100" and "x * 100 < real n + 1 / 2" and "0 \<le> x"
  shows "toFixed2 (Fin x) =
           decimalDigits (n div 100) @ ''.'' @ [digitChar (n div 10 mod 10), digitChar (n mod 10)]"
proof -
  have "\<lfloor>x * 100 + 1 / 2\<rfloor> = int n" using assms(1,2) by linarith
  then have "nat \<lfloor>x * 100 + 1 / 2\<rfloor> = n" by simp
  then show ?thesis using assms(3) by (rule toFixed2_eval [rotated])
qed

lemma ratePercent_eval:
  assumes "0 < den" and "num \<le> den"
    and "real n - 1 / 2 + 1 / 10 ^ 9 \<le> 10000 * (real num / real den)"
    and "10000 * (real num / real den) \<le> real n + 1 / 2 - 1 / 10 ^ 9"
  shows "ratePercent num den =
           decimalDigits (n div 100) @ ''.'' @ [digitChar (n div 10 mod 10), digitChar (n mod 10)]"
proof -
  define q where "q = real num / real den"
  define x where "x = fmul (fl q) 100"
  have q0: "0 \<le> q" and q1: "q \<le> 1" using assms(1,2) by (simp_all add: q_def)
  have e: "\<bar>x - 100 * q\<bar> \<le> q / 10 ^ 13" and x0: "0 \<le> x"
    unfolding x_def using percent_error [OF q0] by simp_all
  have "q / 10 ^ 13 \<le> 1 / 10 ^ 13" using q1 by (simp add: divide_right_mono)
  then have b: "\<bar>x - 100 * q\<bar> \<le> 1 / 10000000000000" using e by simp
  have lo: "real n - 1 / 2 + 1 / 1000000000 \<le> 10000 * q"
    using assms(3) by (simp add: q_def)
  have hi: "10000 * q \<le> real n + 1 / 2 - 1 / 1000000000"
    using assms(4) by (simp add: q_def)
  have "real n - 1 / 2 \<le> x * 100" using b lo by linarith
  moreover have "x * 100 < real n + 1 / 2" using b hi by linarith
  ultimately have "real n - 1 / 2 \<le> x * 100" "x * 100 < real n + 1 / 2" by simp_all
  then have "toFixed2 (Fin x) =
           decimalDigits (n div 100) @ ''.'' @ [digitChar (n div 10 mod 10), digitChar (n mod 10)]"
    using x0 by (rule toFixed2_between)
  then show ?thesis using assms(1) by (simp add: ratePercent_pos fdiv_def x_def q_def)
qed

lemma ratePercent_100_105: "ratePercent 100 105 = ''95.24''"
  by (subst ratePercent_eval [where n = 9524])
     (simp_all add: decimalDigits_small decimalDigits_large digitChar_def)

lemma ratePercent_2_3: "ratePercent 2 3 = ''66.67''"
  by (subst ratePercent_eval [where n = 6667])
     (simp_all add: decimalDigits_small decimalDigits_large digitChar_def)

lemma ratePercent_1_3: "ratePercent 1 3 = ''33.33''"
  by (subst ratePercent_eval [where n = 3333])
     (simp_all add: decimalDigits_small decimalDigits_large digitChar_def)

lemma percent_sum:
  fixes c :: "'a \<Rightarrow> nat" and v :: "'a \<Rightarrow> real"
  assumes "0 < sum_list (map c xs)"
    and "\<forall>x \<in> set xs. \<bar>v x - 100 * (real (c x) / real (sum_list (map c xs)))\<bar>
            \<le> 1 / 200 + (real (c x) / real (sum_list (map c xs))) / 10 ^ 13"
  shows "\<bar>sum_list (map v xs) - 100\<bar> \<le> real (length xs) / 200 + 1 / 10 ^ 13"
proof -
  define T where "T = real (sum_list (map c xs))"
  have T: "0 < T" using assms(1) by (simp add: T_def)
  have sumc: "(\<Sum>x\<leftarrow>xs. real (c x)) = T"
    unfolding T_def by (induction xs) simp_all
  have shares: "(\<Sum>x\<leftarrow>xs. real (c x) / T) = 1"
  proof -
    have "(\<Sum>x\<leftarrow>xs. real (c x) / T) = (\<Sum>x\<leftarrow>xs. real (c x) * (1 / T))" by simp
    also have "\<dots> = (\<Sum>x\<leftarrow>xs. real (c x)) * (1 / T)" by (rule sum_list_mult_const)
    finally show ?thesis using T by (simp add: sumc)
  qed
  have hundred: "(\<Sum>x\<leftarrow>xs. 100 * (real (c x) / T)) = 100"
    using sum_list_const_mult [of 100 "\<lambda>x. real (c x) / T" xs] shares by simp
  have bound: "(\<Sum>x\<leftarrow>xs. 1 / 200 + (real (c x) / T) / 10 ^ 13) = real (length xs) / 200 + 1 / 10 ^ 13"
  proof -
    have "(\<Sum>x\<leftarrow>xs. 1 / 200 + (real (c x) / T) / 10 ^ 13)
            = (\<Sum>x\<leftarrow>xs. 1 / 200) + (\<Sum>x\<leftarrow>xs. (real (c x) / T) * (1 / 10 ^ 13))"
      using sum_list_addf [of "\<lambda>x. 1 / 200" "\<lambda>x. (real (c x) / T) * (1 / 10 ^ 13)" xs] by simp
    also have "(\<Sum>x\<leftarrow>xs. (real (c x) / T) * (1 / 10 ^ 13)) = (\<Sum>x\<leftarrow>xs. real (c x) / T) * (1 / 10 ^ 13)"
      by (rule sum_list_mult_const)
    also have "(\<Sum>x\<leftarrow>xs. 1 / 200 :: real) = real (length xs) / 200"
      by (simp add: sum_list_triv)
    finally show ?thesis by (simp add: shares)
  qed
  have "sum_list (map v xs) - 100 = (\<Sum>x\<leftarrow>xs. v x - 100 * (real (c x) / T))"
    using sum_list_subtractf [of v "\<lambda>x. 100 * (real (c x) / T)" xs] hundred by simp
  then have "\<bar>sum_list (map v xs) - 100\<bar> \<le> (\<Sum>x\<leftarrow>xs. \<bar>v x - 100 * (real (c x) / T)\<bar>)"
    using sum_list_abs [of "map (\<lambda>x. v x - 100 * (real (c x) / T)) xs"] by (simp add: comp_def)
  also have "\<dots> \<le> (\<Sum>x\<leftarrow>xs. 1 / 200 + (real (c x) / T) / 10 ^ 13)"
    using assms(2) unfolding T_def by (intro sum_list_mono) auto
  finally show ?thesis unfolding bound .
qed

text \<open>A number of cents, divided by 100 and printed: exact for an integer below \<open>2^52\<close>.\<close>

lemma toFixed2_error_signed:
  "\<exists>v. decimalValue (toFixed2 (Fin x)) = Some v \<and> \<bar>v - x\<bar> \<le> 1 / 200"
proof (cases "0 \<le> x")
  case True
  then show ?thesis by (rule toFixed2_error)
next
  case False
  then have neg: "x < 0" by simp
  define z where "z = \<lfloor>- x * 100 + 1 / 2\<rfloor>"
  have "0 \<le> z" unfolding z_def using neg by simp
  then have r: "real (nat z) = real_of_int z" by simp
  have "real_of_int z \<le> - x * 100 + 1 / 2" "- x * 100 + 1 / 2 < real_of_int z + 1"
    unfolding z_def by linarith+
  then have "real_of_int z / 100 \<le> - x + 1 / 200" "- x - 1 / 200 \<le> real_of_int z / 100"
    by linarith+
  then have "\<bar>- (real (nat z) / 100) - x\<bar> \<le> 1 / 200" unfolding r by linarith
  moreover have "decimalValue (toFixed2 (Fin x)) = Some (- (real (nat z) / 100))"
    unfolding z_def using neg by (rule decimalValue_toFixed2_neg)
  ultimately show ?thesis by blast
qed

lemma cents_tolerance:
  "\<exists>v. decimalValue (toFixed2 (ndiv (Fin t) (Fin 100))) = Some v \<and>
       \<bar>v * 100 - t\<bar> \<le> 1 / 2 + \<bar>t\<bar> / 2 ^ 53"
proof -
  define x where "x = fl (t / 100)"
  have "\<bar>x - t / 100\<bar> \<le> \<bar>t / 100\<bar> / 2 ^ 53"
    unfolding x_def by (rule fl_rel_error)
  then have e: "\<bar>x - t / 100\<bar> \<le> (\<bar>t\<bar> / 2 ^ 53) / 100" by simp
  obtain v where v: "decimalValue (toFixed2 (Fin x)) = Some v" "\<bar>v - x\<bar> \<le> 1 / 200"
    using toFixed2_error_signed by blast
  define b where "b = \<bar>t\<bar> / 2 ^ 53"
  have "\<bar>x - t / 100\<bar> \<le> b / 100" using e by (simp add: b_def)
  then have "\<bar>v * 100 - t\<bar> \<le> 1 / 2 + b" using v(2) by linarith
  then show ?thesis using v(1) by (auto simp: x_def fdiv_def b_def)
qed

lemma cents_exact:
  assumes "\<bar>S\<bar> < 2 ^ 52"
  shows "decimalValue (toFixed2 (ndiv (Fin (of_int S)) (Fin 100))) = Some (of_int S / 100)"
proof -
  define x where "x = fl (of_int S / 100)"
  define t where "t = \<bar>real_of_int S\<bar> / 2 ^ 53"
  have "\<bar>real_of_int S\<bar> < 2 ^ 52" using assms
    by (metis of_int_abs of_int_less_iff of_int_numeral of_int_power)
  then have t: "t < 1 / 2" by (simp add: t_def)
  have "\<bar>x - of_int S / 100\<bar> \<le> \<bar>of_int S / 100\<bar> / 2 ^ 53"
    unfolding x_def by (rule fl_rel_error)
  then have e: "\<bar>x - of_int S / 100\<bar> \<le> t / 100" by (simp add: t_def)
  have same: "toFixed2 (ndiv (Fin (of_int S)) (Fin 100)) = toFixed2 (Fin x)"
    by (simp add: x_def fdiv_def)
  show ?thesis
  proof (cases "0 \<le> S")
    case True
    then have s: "\<bar>real_of_int S\<bar> = real_of_int S" by simp
    have "t \<le> real_of_int S" 
      using True unfolding t_def s by (simp add: field_simps)
    then have x0: "0 \<le> x" using e by linarith
    have "real_of_int S \<le> x * 100 + 1 / 2" "x * 100 + 1 / 2 < real_of_int S + 1"
      using e t by linarith+
    then have "\<lfloor>x * 100 + 1 / 2\<rfloor> = S" by linarith
    then have "real (nat \<lfloor>x * 100 + 1 / 2\<rfloor>) = real_of_int S" using True by simp
    then show ?thesis unfolding same using decimalValue_toFixed2_nonneg [OF x0] by simp
  next
    case False
    then have s: "\<bar>real_of_int S\<bar> = - real_of_int S" and neg: "real_of_int S < 0" by simp_all
    have "t < - real_of_int S"
      using neg unfolding t_def s by (simp add: field_simps)
    then have x0: "x < 0" using e by linarith
    have "- real_of_int S \<le> - x * 100 + 1 / 2" "- x * 100 + 1 / 2 < - real_of_int S + 1"
      using e t by linarith+
    then have "real_of_int (- S) \<le> - x * 100 + 1 / 2" "- x * 100 + 1 / 2 < real_of_int (- S) + 1"
      by simp_all
    then have "\<lfloor>- x * 100 + 1 / 2\<rfloor> = - S" by linarith
    then have "real (nat \<lfloor>- x * 100 + 1 / 2\<rfloor>) = - real_of_int S" using False by simp
    then show ?thesis unfolding same using decimalValue_toFixed2_neg [OF x0] by simp
  qed
qed

section \<open>The claims\<close>

subsection \<open>The segments of userSegmentation\<close>

text \<open>
  The joined rows are those of the users, one after the other. Under the primary
  keys a group of the query holds one user, that user's credit row, one payment
  record (or none) and every message of the user.
\<close>

lemma segmentJoinRows_eq: "segmentJoinRows d = concat (map (userJoin d) (users d))"
  unfolding segmentJoinRows_def leftJoin_def [of "users d"]
  by (simp add: leftJoin_concat comp_def leftJoin_map userJoin_def [abs_def])

lemma userJoin_user: "j \<in> set (userJoin d u) \<Longrightarrow> fst (fst (fst j)) = u"
  by (auto simp: userJoin_def)

lemma userJoin_nonempty: "userJoin d u \<noteq> []"
proof -
  obtain c where "c \<in> set (nullable (filter (\<lambda>c. user_id u = userCredit_userId c) (userCredits d)))"
    using nullable_nonempty by (metis last_in_set)
  moreover obtain m where "m \<in> set (nullable (filter (\<lambda>m. user_id u = messageLog_userId m) (messageLogs d)))"
    using nullable_nonempty by (metis last_in_set)
  moreover obtain pr where "pr \<in> set (nullable (filter (\<lambda>pr. user_id u = paymentRecord_userId pr) (paymentRecords d)))"
    using nullable_nonempty by (metis last_in_set)
  ultimately have "(((u, c), m), pr) \<in> set (userJoin d u)"
    unfolding userJoin_def by auto
  then show ?thesis by auto
qed

lemma userJoin_payment:
  assumes "(((u, c), m), pr) \<in> set (userJoin d u)"
  shows "pr \<in> set (nullable (filter (\<lambda>pr. user_id u = paymentRecord_userId pr) (paymentRecords d)))"
  using assms by (auto simp: userJoin_def)

lemma segment_group:
  assumes keys: "primaryKeys d" and u: "u \<in> set (users d)"
    and j: "(((u, c), m), pr) \<in> set (userJoin d u)"
  shows "filter (\<lambda>j. segmentKey j = segmentKey (((u, c), m), pr)) (segmentJoinRows d)
           = map (\<lambda>m. (((u, c), m), pr))
               (nullable (filter (\<lambda>m. user_id u = messageLog_userId m) (messageLogs d)))"
proof -
  let ?P = "\<lambda>j. segmentKey j = segmentKey (((u, c), m), pr)"
  let ?cs = "nullable (filter (\<lambda>c. user_id u = userCredit_userId c) (userCredits d))"
  let ?ms = "nullable (filter (\<lambda>m. user_id u = messageLog_userId m) (messageLogs d))"
  let ?ps = "nullable (filter (\<lambda>pr. user_id u = paymentRecord_userId pr) (paymentRecords d))"
  have du: "distinct (users d)" using keys by (simp add: primaryKeys_def distinct_map)
  have other: "\<forall>v \<in> set (users d). v \<noteq> u \<longrightarrow> filter ?P (userJoin d v) = []"
  proof (intro ballI impI)
    fix v assume v: "v \<in> set (users d)" "v \<noteq> u"
    have "inj_on user_id (set (users d))" using keys by (simp add: primaryKeys_def distinct_map)
    then have "user_id v \<noteq> user_id u" using v u by (auto dest: inj_onD)
    then show "filter ?P (userJoin d v) = []"
      by (auto simp: filter_empty_conv segmentKey_def dest!: userJoin_user)
  qed
  have "filter ?P (segmentJoinRows d) = concat (map (\<lambda>v. filter ?P (userJoin d v)) (users d))"
    by (simp add: segmentJoinRows_eq filter_concat comp_def)
  also have "\<dots> = filter ?P (userJoin d u)"
    using du u other by (rule concat_map_single)
  finally have one: "filter ?P (segmentJoinRows d) = filter ?P (userJoin d u)" .
  have "distinct (map userCredit_userId (userCredits d))" using keys by (simp add: primaryKeys_def)
  then have "filter (\<lambda>c. userCredit_userId c = user_id u) (userCredits d) = [] \<or>
        (\<exists>y. filter (\<lambda>c. userCredit_userId c = user_id u) (userCredits d) = [y])"
    by (rule filter_key_at_most_one)
  then have "\<exists>c'. ?cs = [c']"
    by (intro nullable_single) (simp add: eq_commute [of "user_id u"])
  then obtain c' where c': "?cs = [c']" by blast
  have "c \<in> set ?cs" using j by (auto simp: userJoin_def)
  then have cc: "c' = c" by (simp add: c')
  have pr: "pr \<in> set ?ps" using j by (rule userJoin_payment)
  have dp: "distinct (map paymentRecord_id (filter (\<lambda>pr. user_id u = paymentRecord_userId pr) (paymentRecords d)))"
    using keys by (simp add: primaryKeys_def distinct_map_filter)
  have sel: "filter (\<lambda>q. map_option paymentRecord_id q = map_option paymentRecord_id pr) ?ps = [pr]"
    using dp pr by (rule nullable_unique_key)
  have "filter ?P (userJoin d u)
          = concat (map (\<lambda>m. map (\<lambda>q. (((u, c), m), q))
                (filter (\<lambda>q. map_option paymentRecord_id q = map_option paymentRecord_id pr) ?ps)) ?ms)"
    by (simp add: userJoin_def c' cc filter_concat filter_map comp_def segmentKey_def)
  also have "\<dots> = map (\<lambda>m. (((u, c), m), pr)) ?ms"
    by (simp add: sel)
  finally show ?thesis using one by simp
qed

lemma userSegments_iff:
  "row \<in> set (userSegments d) \<longleftrightarrow>
     (\<exists>j \<in> set (segmentJoinRows d).
        row = (case segmentKey j of (uid, nm, em, bal, prid) \<Rightarrow>
                 \<lparr>seg_userId = uid, seg_userName = nm, seg_email = em, seg_credits = bal,
                  seg_totalMessages =
                    length (filter (\<lambda>(((u, c), m), pr). m \<noteq> None)
                              (filter (\<lambda>i. segmentKey i = segmentKey j) (segmentJoinRows d))),
                  seg_hasPaid = (prid \<noteq> None)\<rparr>))"
  unfolding userSegments_def groupBy_def by (auto simp: image_iff split: prod.splits)

lemma messagesOf_alt: "messagesOf d (user_id u) = filter (\<lambda>m. user_id u = messageLog_userId m) (messageLogs d)"
  by (simp add: messagesOf_def eq_commute)

lemma paymentsOf_alt: "paymentsOf d (user_id u) = filter (\<lambda>pr. user_id u = paymentRecord_userId pr) (paymentRecords d)"
  by (simp add: paymentsOf_def eq_commute)

lemma segment_row_of_join:
  assumes keys: "primaryKeys d" and u: "u \<in> set (users d)"
    and j: "(((u, c), m), pr) \<in> set (userJoin d u)"
  shows "(case segmentKey (((u, c), m), pr) of (uid, nm, em, bal, prid) \<Rightarrow>
                 \<lparr>seg_userId = uid, seg_userName = nm, seg_email = em, seg_credits = bal,
                  seg_totalMessages =
                    length (filter (\<lambda>(((u, c), m), pr). m \<noteq> None)
                              (filter (\<lambda>i. segmentKey i = segmentKey (((u, c), m), pr)) (segmentJoinRows d))),
                  seg_hasPaid = (prid \<noteq> None)\<rparr>)
         = \<lparr>seg_userId = user_id u, seg_userName = user_name u, seg_email = user_email u,
            seg_credits = map_option userCredit_balance c,
            seg_totalMessages = length (messagesOf d (user_id u)),
            seg_hasPaid = (paymentsOf d (user_id u) \<noteq> [])\<rparr>"
proof -
  have "pr \<in> set (nullable (paymentsOf d (user_id u)))"
    unfolding paymentsOf_alt using j by (rule userJoin_payment)
  then have paid: "(pr \<noteq> None) = (paymentsOf d (user_id u) \<noteq> [])"
    by (auto simp: set_nullable split: if_splits)
  have "length (filter (\<lambda>(((u, c), m), pr). m \<noteq> None)
          (map (\<lambda>m. (((u, c), m), pr)) (nullable (messagesOf d (user_id u)))))
        = length (filter (\<lambda>m. m \<noteq> None) (nullable (messagesOf d (user_id u))))"
    by (simp add: filter_map comp_def)
  also have "\<dots> = length (messagesOf d (user_id u))"
    by (simp only: nullable_not_None length_map)
  finally show ?thesis
    using paid by (simp add: segment_group [OF keys u j] messagesOf_alt [symmetric]) (simp add: segmentKey_def)
qed

lemma userSegments_of_user:
  assumes keys: "primaryKeys d" and u: "u \<in> set (users d)"
  shows "\<exists>row \<in> set (userSegments d). seg_userId row = user_id u"
    and "\<forall>row \<in> set (userSegments d). seg_userId row = user_id u \<longrightarrow>
           seg_totalMessages row = length (messagesOf d (user_id u)) \<and>
           seg_hasPaid row = (paymentsOf d (user_id u) \<noteq> [])"
proof -
  obtain j where j: "j \<in> set (userJoin d u)"
    using userJoin_nonempty [of d u] by (metis last_in_set)
  obtain c m pr where jj: "j = (((u, c), m), pr)"
    using userJoin_user [OF j] by (metis prod.collapse)
  have "j \<in> set (segmentJoinRows d)" using j u by (auto simp: segmentJoinRows_eq)
  then have "\<lparr>seg_userId = user_id u, seg_userName = user_name u, seg_email = user_email u,
            seg_credits = map_option userCredit_balance c,
            seg_totalMessages = length (messagesOf d (user_id u)),
            seg_hasPaid = (paymentsOf d (user_id u) \<noteq> [])\<rparr> \<in> set (userSegments d)"
    unfolding userSegments_iff
    using segment_row_of_join [OF keys u j [unfolded jj]] unfolding jj by (intro bexI [of _ j]) (simp_all add: jj)
  then show "\<exists>row \<in> set (userSegments d). seg_userId row = user_id u" by force
  show "\<forall>row \<in> set (userSegments d). seg_userId row = user_id u \<longrightarrow>
           seg_totalMessages row = length (messagesOf d (user_id u)) \<and>
           seg_hasPaid row = (paymentsOf d (user_id u) \<noteq> [])"
  proof (intro ballI impI)
    fix row assume row: "row \<in> set (userSegments d)" and same: "seg_userId row = user_id u"
    from row obtain i where i: "i \<in> set (segmentJoinRows d)"
      and r: "row = (case segmentKey i of (uid, nm, em, bal, prid) \<Rightarrow>
                 \<lparr>seg_userId = uid, seg_userName = nm, seg_email = em, seg_credits = bal,
                  seg_totalMessages =
                    length (filter (\<lambda>(((u, c), m), pr). m \<noteq> None)
                              (filter (\<lambda>k. segmentKey k = segmentKey i) (segmentJoinRows d))),
                  seg_hasPaid = (prid \<noteq> None)\<rparr>)"
      unfolding userSegments_iff by blast
    from i obtain v where v: "v \<in> set (users d)" and iv: "i \<in> set (userJoin d v)"
      by (auto simp: segmentJoinRows_eq)
    obtain c' m' pr' where ii: "i = (((v, c'), m'), pr')"
      using userJoin_user [OF iv] by (metis prod.collapse)
    have "seg_userId row = user_id v" by (simp add: r ii segmentKey_def)
    then have "user_id v = user_id u" using same by simp
    moreover have "inj_on user_id (set (users d))" using keys by (simp add: primaryKeys_def distinct_map)
    ultimately have vu: "v = u" using v u by (auto dest: inj_onD)
    have "row = \<lparr>seg_userId = user_id u, seg_userName = user_name u, seg_email = user_email u,
            seg_credits = map_option userCredit_balance c',
            seg_totalMessages = length (messagesOf d (user_id u)),
            seg_hasPaid = (paymentsOf d (user_id u) \<noteq> [])\<rparr>"
      using segment_row_of_join [OF keys u iv [unfolded ii vu]] unfolding r ii vu by simp
    then show "seg_totalMessages row = length (messagesOf d (user_id u)) \<and>
           seg_hasPaid row = (paymentsOf d (user_id u) \<noteq> [])"
      by simp
  qed
qed

lemma segment_rows_of_user:
  assumes "primaryKeys d" and "u \<in> set (users d)"
  shows "user_id u \<in> seg_userId ` set (heavyRows (userSegments d))
           \<longleftrightarrow> 10 < length (messagesOf d (user_id u))"
    and "user_id u \<in> seg_userId ` set (lightRows (userSegments d))
           \<longleftrightarrow> length (messagesOf d (user_id u)) \<le> 10"
    and "user_id u \<in> seg_userId ` set (paidRows (userSegments d))
           \<longleftrightarrow> paymentsOf d (user_id u) \<noteq> []"
    and "user_id u \<in> seg_userId ` set (freeRows (userSegments d))
           \<longleftrightarrow> paymentsOf d (user_id u) = []"
proof -
  note ex = userSegments_of_user(1) [OF assms]
  note all = userSegments_of_user(2) [OF assms]
  show "user_id u \<in> seg_userId ` set (heavyRows (userSegments d))
                 \<longleftrightarrow> 10 < length (messagesOf d (user_id u))"
    using ex all unfolding heavyRows_def by (auto simp: image_iff)
  show "user_id u \<in> seg_userId ` set (lightRows (userSegments d))
                 \<longleftrightarrow> length (messagesOf d (user_id u)) \<le> 10"
    using ex all unfolding lightRows_def by (auto simp: image_iff)
  show "user_id u \<in> seg_userId ` set (paidRows (userSegments d))
                 \<longleftrightarrow> paymentsOf d (user_id u) \<noteq> []"
    using ex all unfolding paidRows_def by (auto simp: image_iff)
  show "user_id u \<in> seg_userId ` set (freeRows (userSegments d))
                 \<longleftrightarrow> paymentsOf d (user_id u) = []"
    using ex all unfolding freeRows_def by (auto simp: image_iff)
qed

lemma first_rows:
  "x \<in> f ` set (take n rows) \<Longrightarrow> x \<in> f ` set rows"
  "length rows \<le> n \<Longrightarrow> x \<in> f ` set (take n rows) \<longleftrightarrow> x \<in> f ` set rows"
  by (auto dest: in_set_takeD)

lemma userSegmentation_fields:
  "free (segments (userSegmentation d)) = take 10 (freeRows (userSegments d))"
  "paid (segments (userSegmentation d)) = take 10 (paidRows (userSegments d))"
  "heavy (segments (userSegmentation d)) = take 10 (heavyRows (userSegments d))"
  "light (segments (userSegmentation d)) = take 10 (lightRows (userSegments d))"
  "freeUsers (userSegmentation d) = length (freeRows (userSegments d))"
  "paidUsers (userSegmentation d) = length (paidRows (userSegments d))"
  "heavyUsers (userSegmentation d) = length (heavyRows (userSegments d))"
  "lightUsers (userSegmentation d) = length (lightRows (userSegments d))"
  by (simp_all add: userSegmentation_def userSegmentationOf_def)

text \<open>
  Claim C1, amended. The result of \<^verbatim>\<open>userSegmentation\<close> reports the lengths of the
  four segments and lists the first 10 rows of each. No user appears both in the
  free and in the paid list, or both in the heavy and in the light list. A user
  appears in exactly one of the free and the paid list when \<^verbatim>\<open>freeUsers\<close> and
  \<^verbatim>\<open>paidUsers\<close> are at most 10, and in exactly one of the heavy and the light list
  when \<^verbatim>\<open>heavyUsers\<close> and \<^verbatim>\<open>lightUsers\<close> are at most 10. A user in the heavy list
  has more than 10 messages and a user in the light list at most 10 (light with
  exactly 10); a user in the paid list has a payment record, whatever its status,
  and a user in the free list has none; and a list whose segment has at most 10
  rows holds every user of its kind. With more than 10 rows in a segment a user
  can be in none of the four lists (the example of eleven users below). To appear is to own a row of the list: the query groups by the payment
  record's id, so a user with several payment records has as many rows, all of
  them paid (\<open>segmentExample_rows\<close> below).
\<close>

theorem userSegmentation_partition:
  assumes "primaryKeys d" and "u \<in> set (users d)"
  shows "(let result = userSegmentation d; lists = segments result; uid = user_id u;
              messages = length (messagesOf d uid); payments = paymentsOf d uid
          in \<not> (uid \<in> seg_userId ` set (free lists) \<and> uid \<in> seg_userId ` set (paid lists)) \<and>
             \<not> (uid \<in> seg_userId ` set (heavy lists) \<and> uid \<in> seg_userId ` set (light lists)) \<and>
             (freeUsers result \<le> 10 \<and> paidUsers result \<le> 10 \<longrightarrow>
                (uid \<in> seg_userId ` set (free lists)) \<noteq> (uid \<in> seg_userId ` set (paid lists))) \<and>
             (heavyUsers result \<le> 10 \<and> lightUsers result \<le> 10 \<longrightarrow>
                (uid \<in> seg_userId ` set (heavy lists)) \<noteq> (uid \<in> seg_userId ` set (light lists))) \<and>
             (uid \<in> seg_userId ` set (heavy lists) \<longrightarrow> 10 < messages) \<and>
             (uid \<in> seg_userId ` set (light lists) \<longrightarrow> messages \<le> 10) \<and>
             (uid \<in> seg_userId ` set (paid lists) \<longrightarrow> payments \<noteq> []) \<and>
             (uid \<in> seg_userId ` set (free lists) \<longrightarrow> payments = []) \<and>
             (heavyUsers result \<le> 10 \<and> 10 < messages \<longrightarrow> uid \<in> seg_userId ` set (heavy lists)) \<and>
             (lightUsers result \<le> 10 \<and> messages \<le> 10 \<longrightarrow> uid \<in> seg_userId ` set (light lists)) \<and>
             (paidUsers result \<le> 10 \<and> payments \<noteq> [] \<longrightarrow> uid \<in> seg_userId ` set (paid lists)) \<and>
             (freeUsers result \<le> 10 \<and> payments = [] \<longrightarrow> uid \<in> seg_userId ` set (free lists)))"
proof -
  note rows = segment_rows_of_user [OF assms]
  let ?S = "userSegments d"
  let ?m = "length (messagesOf d (user_id u))"
  let ?p = "paymentsOf d (user_id u)"
  let ?F = "user_id u \<in> seg_userId ` set (take 10 (freeRows ?S))"
  let ?P = "user_id u \<in> seg_userId ` set (take 10 (paidRows ?S))"
  let ?H = "user_id u \<in> seg_userId ` set (take 10 (heavyRows ?S))"
  let ?L = "user_id u \<in> seg_userId ` set (take 10 (lightRows ?S))"
  have heavy1: "?H \<longrightarrow> 10 < ?m"
  proof
    assume ?H
    then have "user_id u \<in> seg_userId ` set (heavyRows ?S)" by (rule first_rows(1))
    then show "10 < ?m" using rows(1) by blast
  qed
  have light1: "?L \<longrightarrow> ?m \<le> 10"
  proof
    assume ?L
    then have "user_id u \<in> seg_userId ` set (lightRows ?S)" by (rule first_rows(1))
    then show "?m \<le> 10" using rows(2) by blast
  qed
  have paid1: "?P \<longrightarrow> ?p \<noteq> []"
  proof
    assume ?P
    then have "user_id u \<in> seg_userId ` set (paidRows ?S)" by (rule first_rows(1))
    then show "?p \<noteq> []" using rows(3) by blast
  qed
  have free1: "?F \<longrightarrow> ?p = []"
  proof
    assume ?F
    then have "user_id u \<in> seg_userId ` set (freeRows ?S)" by (rule first_rows(1))
    then show "?p = []" using rows(4) by blast
  qed
  have heavy2: "length (heavyRows ?S) \<le> 10 \<and> 10 < ?m \<longrightarrow> ?H"
  proof
    assume a: "length (heavyRows ?S) \<le> 10 \<and> 10 < ?m"
    then have "user_id u \<in> seg_userId ` set (heavyRows ?S)" using rows(1) by blast
    then show ?H using a by (simp add: first_rows(2))
  qed
  have light2: "length (lightRows ?S) \<le> 10 \<and> ?m \<le> 10 \<longrightarrow> ?L"
  proof
    assume a: "length (lightRows ?S) \<le> 10 \<and> ?m \<le> 10"
    then have "user_id u \<in> seg_userId ` set (lightRows ?S)" using rows(2) by blast
    then show ?L using a by (simp add: first_rows(2))
  qed
  have paid2: "length (paidRows ?S) \<le> 10 \<and> ?p \<noteq> [] \<longrightarrow> ?P"
  proof
    assume a: "length (paidRows ?S) \<le> 10 \<and> ?p \<noteq> []"
    then have "user_id u \<in> seg_userId ` set (paidRows ?S)" using rows(3) by blast
    then show ?P using a by (simp add: first_rows(2))
  qed
  have free2: "length (freeRows ?S) \<le> 10 \<and> ?p = [] \<longrightarrow> ?F"
  proof
    assume a: "length (freeRows ?S) \<le> 10 \<and> ?p = []"
    then have "user_id u \<in> seg_userId ` set (freeRows ?S)" using rows(4) by blast
    then show ?F using a by (simp add: first_rows(2))
  qed
  have notboth1: "\<not> (?F \<and> ?P)" using free1 paid1 by blast
  have notboth2: "\<not> (?H \<and> ?L)"
  proof
    assume "?H \<and> ?L"
    then have "10 < ?m" "?m \<le> 10" using heavy1 light1 by blast+
    then show False by simp
  qed
  have one1: "length (freeRows ?S) \<le> 10 \<and> length (paidRows ?S) \<le> 10 \<longrightarrow> ?F \<noteq> ?P"
    using free1 paid1 free2 paid2 by blast
  have "10 < ?m \<or> ?m \<le> 10" by linarith
  then have one2: "length (heavyRows ?S) \<le> 10 \<and> length (lightRows ?S) \<le> 10 \<longrightarrow> ?H \<noteq> ?L"
    using notboth2 heavy2 light2 by blast
  show ?thesis
    unfolding Let_def userSegmentation_fields
    by (rule conjI [OF notboth1 conjI [OF notboth2 conjI [OF one1 conjI [OF one2
          conjI [OF heavy1 conjI [OF light1 conjI [OF paid1 conjI [OF free1
          conjI [OF heavy2 conjI [OF light2 conjI [OF paid2 free2]]]]]]]]]]])
qed

text \<open>
  A user with 11 messages and two payment records, a user with exactly 10
  messages and no record, and a user whose only record has failed.
\<close>

lemma segmentExample_rows:
  "map (\<lambda>row. (seg_userId row, seg_totalMessages row, seg_hasPaid row)) (userSegments segmentExample)
     = [(''ann'', 11, True), (''ann'', 11, True), (''bob'', 10, False), (''cy'', 0, True)]"
  by (simp add: userSegments_def groupBy_def segmentJoinRows_def leftJoin_def nullable_def
        segmentKey_def segmentExample_def messageAt_def payment_def)

lemma crowdExample_rows:
  "userSegments crowdExample
     = map (\<lambda>c. \<lparr>seg_userId = [c], seg_userName = None, seg_email = c # ''@example.org'',
                    seg_credits = None, seg_totalMessages = 0, seg_hasPaid = False\<rparr>)
         ''abcdefghijk''"
  by (simp add: userSegments_def groupBy_def segmentJoinRows_def leftJoin_def nullable_def
        segmentKey_def crowdExample_def)

lemma segmentExample_counts:
  "freeUsers (userSegmentation segmentExample) = 1"
  "paidUsers (userSegmentation segmentExample) = 3"
  "heavyUsers (userSegmentation segmentExample) = 2"
  "lightUsers (userSegmentation segmentExample) = 2"
  by (simp_all add: userSegmentation_def userSegmentationOf_def freeRows_def paidRows_def
        heavyRows_def lightRows_def userSegments_def groupBy_def segmentJoinRows_def leftJoin_def
        nullable_def segmentKey_def segmentExample_def messageAt_def payment_def)

theorem userSegmentation_partition_witness:
  "primaryKeys segmentExample \<and>
   length (messagesOf segmentExample ''ann'') = 11 \<and>
   ''ann'' \<in> seg_userId ` set (heavy (segments (userSegmentation segmentExample))) \<and>
   ''ann'' \<notin> seg_userId ` set (light (segments (userSegmentation segmentExample))) \<and>
   ''ann'' \<in> seg_userId ` set (paid (segments (userSegmentation segmentExample))) \<and>
   ''ann'' \<notin> seg_userId ` set (free (segments (userSegmentation segmentExample))) \<and>
   length (messagesOf segmentExample ''bob'') = 10 \<and>
   ''bob'' \<in> seg_userId ` set (light (segments (userSegmentation segmentExample))) \<and>
   ''bob'' \<notin> seg_userId ` set (heavy (segments (userSegmentation segmentExample))) \<and>
   ''bob'' \<in> seg_userId ` set (free (segments (userSegmentation segmentExample))) \<and>
   ''bob'' \<notin> seg_userId ` set (paid (segments (userSegmentation segmentExample))) \<and>
   map paymentRecord_status (paymentsOf segmentExample ''cy'') = [''failed''] \<and>
   ''cy'' \<in> seg_userId ` set (paid (segments (userSegmentation segmentExample))) \<and>
   ''cy'' \<notin> seg_userId ` set (free (segments (userSegmentation segmentExample)))"
proof -
  have keys: "primaryKeys segmentExample"
    by (simp add: primaryKeys_def segmentExample_def payment_def)
  have ann: "\<lparr>user_id = ''ann'', user_name = Some ''Ann'', user_email = ''ann@example.org''\<rparr>
               \<in> set (users segmentExample)"
    and bob: "\<lparr>user_id = ''bob'', user_name = None, user_email = ''bob@example.org''\<rparr>
               \<in> set (users segmentExample)"
    and cy: "\<lparr>user_id = ''cy'', user_name = Some ''Cy'', user_email = ''cy@example.org''\<rparr>
               \<in> set (users segmentExample)"
    by (simp_all add: segmentExample_def)
  have m: "length (messagesOf segmentExample ''ann'') = 11" "length (messagesOf segmentExample ''bob'') = 10"
    by (simp_all add: messagesOf_def segmentExample_def messageAt_def)
  have p: "paymentsOf segmentExample ''ann'' \<noteq> []" "paymentsOf segmentExample ''bob'' = []"
    "map paymentRecord_status (paymentsOf segmentExample ''cy'') = [''failed'']"
    by (simp_all add: paymentsOf_def segmentExample_def payment_def)
  have pc: "paymentsOf segmentExample ''cy'' \<noteq> []" using p(3) by auto
  note a = userSegmentation_partition [OF keys ann, unfolded Let_def segmentExample_counts, simplified]
  note b = userSegmentation_partition [OF keys bob, unfolded Let_def segmentExample_counts, simplified]
  note c = userSegmentation_partition [OF keys cy, unfolded Let_def segmentExample_counts, simplified]
  have "''ann'' \<in> seg_userId ` set (heavy (segments (userSegmentation segmentExample)))"
    "''ann'' \<notin> seg_userId ` set (light (segments (userSegmentation segmentExample)))"
    "''ann'' \<in> seg_userId ` set (paid (segments (userSegmentation segmentExample)))"
    "''ann'' \<notin> seg_userId ` set (free (segments (userSegmentation segmentExample)))"
    using a m(1) p(1) by simp_all
  moreover have "''bob'' \<in> seg_userId ` set (light (segments (userSegmentation segmentExample)))"
    "''bob'' \<notin> seg_userId ` set (heavy (segments (userSegmentation segmentExample)))"
    "''bob'' \<in> seg_userId ` set (free (segments (userSegmentation segmentExample)))"
    "''bob'' \<notin> seg_userId ` set (paid (segments (userSegmentation segmentExample)))"
    using b m(2) p(2) by simp_all
  moreover have "''cy'' \<in> seg_userId ` set (paid (segments (userSegmentation segmentExample)))"
    "''cy'' \<notin> seg_userId ` set (free (segments (userSegmentation segmentExample)))"
    using c pc by simp_all
  ultimately show ?thesis using keys m p(3) by simp
qed

text \<open>
  With eleven users every one of them is free and light, and the result lists
  ten of them, here the first ten: one user is in none of the four lists,
  whatever the order in which the database delivers the rows.
\<close>

theorem userSegmentation_partition_counterexample:
  "primaryKeys crowdExample \<and>
   \<lparr>user_id = ''k'', user_name = None, user_email = ''k@example.org''\<rparr> \<in> set (users crowdExample) \<and>
   freeUsers (userSegmentation crowdExample) = 11 \<and>
   lightUsers (userSegmentation crowdExample) = 11 \<and>
   ''k'' \<notin> seg_userId ` set (free (segments (userSegmentation crowdExample))) \<and>
   ''k'' \<notin> seg_userId ` set (paid (segments (userSegmentation crowdExample))) \<and>
   ''k'' \<notin> seg_userId ` set (heavy (segments (userSegmentation crowdExample))) \<and>
   ''k'' \<notin> seg_userId ` set (light (segments (userSegmentation crowdExample)))"
proof -
  have keys: "primaryKeys crowdExample" by (simp add: primaryKeys_def crowdExample_def)
  have k: "\<lparr>user_id = ''k'', user_name = None, user_email = ''k@example.org''\<rparr> \<in> set (users crowdExample)"
    by (simp add: crowdExample_def)
  have rest: "freeUsers (userSegmentation crowdExample) = 11"
    "lightUsers (userSegmentation crowdExample) = 11"
    "''k'' \<notin> seg_userId ` set (free (segments (userSegmentation crowdExample)))"
    "''k'' \<notin> seg_userId ` set (paid (segments (userSegmentation crowdExample)))"
    "''k'' \<notin> seg_userId ` set (heavy (segments (userSegmentation crowdExample)))"
    "''k'' \<notin> seg_userId ` set (light (segments (userSegmentation crowdExample)))"
    by (simp_all add: userSegmentation_fields crowdExample_rows freeRows_def paidRows_def
          heavyRows_def lightRows_def)
  show ?thesis using keys k rest by simp
qed

subsection \<open>Period resolution\<close>

text \<open>
  Claim C2. For each of the period tokens \<^verbatim>\<open>7d\<close>, \<^verbatim>\<open>30d\<close>, \<^verbatim>\<open>90d\<close> and \<^verbatim>\<open>1y\<close>,
  \<^verbatim>\<open>getDateRange\<close> returns the interval that starts exactly 7, 30, 90 and 365
  days (of 86 400 000 milliseconds) before the clock reading and ends at the
  clock reading.
\<close>

theorem getDateRange_interval:
  "getDateRange now P7d = \<lparr>startDate = now - 7 * 86400000, endDate = now\<rparr> \<and>
   getDateRange now P30d = \<lparr>startDate = now - 30 * 86400000, endDate = now\<rparr> \<and>
   getDateRange now P90d = \<lparr>startDate = now - 90 * 86400000, endDate = now\<rparr> \<and>
   getDateRange now P1y = \<lparr>startDate = now - 365 * 86400000, endDate = now\<rparr>"
  by (simp add: getDateRange_def daysBack_def)

subsection \<open>The guards against division by zero\<close>

lemma ratePercent_zero [simp]: "ratePercent num 0 = ''0''"
  by (simp add: ratePercent_def)

text \<open>
  Without its guard a ratio over an empty denominator would print \<^verbatim>\<open>NaN\<close>.
\<close>

lemma unguarded_ratio_is_NaN: "toFixed2 (nmul (ndiv (Fin 0) (Fin 0)) (Fin 100)) = ''NaN''"
  by (simp add: toFixed2_def)

text \<open>
  Claim C3. Every derived ratio or average of the metric bundles is the text
  \<^verbatim>\<open>"0"\<close> whenever its denominator is zero: the four conversion rates of the
  funnel, the success rate of a tier, the average processing time, the
  percentage of a provider, the average messages per user, the average messages
  on limit days, the success rate of an action, and the ARPU. The denominator of
  the growth rate is \<^verbatim>\<open>Math.max(totalUsers - newUsersInPeriod, 1)\<close>, which is never
  zero; its guard returns \<^verbatim>\<open>"0"\<close> when there are no users. The statement is
  about the shaping of any rows the queries may deliver.
\<close>

theorem zero_denominator_guards:
  "(let funnel = conversionFunnelOf totalUsers firstMessageUsers paymentIntentUsers completedPaymentUsers
    in (registrations funnel = 0 \<longrightarrow>
          registrationToFirstMessage (conversionRates funnel) = ''0'' \<and>
          overallConversion (conversionRates funnel) = ''0'') \<and>
       (firstMessage funnel = 0 \<longrightarrow> firstMessageToPaymentIntent (conversionRates funnel) = ''0'') \<and>
       (paymentIntent funnel = 0 \<longrightarrow> paymentIntentToCompletion (conversionRates funnel) = ''0'')) \<and>
   (let payment = paymentAnalysisOf tiers samples
    in (\<forall>t \<in> set (tierStats payment). ts_totalAttempts t = 0 \<longrightarrow> tierSuccessRate t = ''0'') \<and>
       (length samples = 0 \<longrightarrow> averageProcessingTime payment = ''0'')) \<and>
   (let auth = authenticationPatternsOf providers
    in totalAccounts auth = 0 \<longrightarrow> (\<forall>s \<in> set (providerStats auth). percentage s = ''0'')) \<and>
   (length perUser = 0 \<longrightarrow> avgMessages perUser = ''0'') \<and>
   (let limits = rateLimitingImpactOf counts
    in totalDaysWithLimitHits limits = 0 \<longrightarrow> averageMessagesOnLimitDays limits = ''0'') \<and>
   (let health = systemHealthOf stats errors
    in \<forall>s \<in> set (apiStats health). as_totalRequests s = 0 \<longrightarrow> successRate s = ''0'') \<and>
   (let growth = userGrowth d now later rand p
    in growthDenominator (ug_totalUsers growth) (newUsersInPeriod growth) \<noteq> 0 \<and>
       (ug_totalUsers growth = 0 \<longrightarrow> growthRate growth = ''0'')) \<and>
   (let revenue = revenueMetricsOf months payers
    in uniquePayingUsers revenue = 0 \<longrightarrow> arpu revenue = ''0'')"
proof -
  have funnel: "let funnel = conversionFunnelOf totalUsers firstMessageUsers paymentIntentUsers completedPaymentUsers
    in (registrations funnel = 0 \<longrightarrow>
          registrationToFirstMessage (conversionRates funnel) = ''0'' \<and>
          overallConversion (conversionRates funnel) = ''0'') \<and>
       (firstMessage funnel = 0 \<longrightarrow> firstMessageToPaymentIntent (conversionRates funnel) = ''0'') \<and>
       (paymentIntent funnel = 0 \<longrightarrow> paymentIntentToCompletion (conversionRates funnel) = ''0'')"
    by (simp add: conversionFunnelOf_def Let_def)
  have payment: "let payment = paymentAnalysisOf tiers samples
    in (\<forall>t \<in> set (tierStats payment). ts_totalAttempts t = 0 \<longrightarrow> tierSuccessRate t = ''0'') \<and>
       (length samples = 0 \<longrightarrow> averageProcessingTime payment = ''0'')"
    by (auto simp: paymentAnalysisOf_def averageProcessing_def)
  have auth: "let auth = authenticationPatternsOf providers
    in totalAccounts auth = 0 \<longrightarrow> (\<forall>s \<in> set (providerStats auth). percentage s = ''0'')"
    by (auto simp: authenticationPatternsOf_def Let_def)
  have engagement: "length perUser = 0 \<longrightarrow> avgMessages perUser = ''0''"
    by (simp add: avgMessages_def)
  have limits: "let limits = rateLimitingImpactOf counts
    in totalDaysWithLimitHits limits = 0 \<longrightarrow> averageMessagesOnLimitDays limits = ''0''"
    by (simp add: rateLimitingImpactOf_def Let_def)
  have health: "let health = systemHealthOf stats errors
    in \<forall>s \<in> set (apiStats health). as_totalRequests s = 0 \<longrightarrow> successRate s = ''0''"
    by (auto simp: systemHealthOf_def)
  have growth: "let growth = userGrowth d now later rand p
    in growthDenominator (ug_totalUsers growth) (newUsersInPeriod growth) \<noteq> 0 \<and>
       (ug_totalUsers growth = 0 \<longrightarrow> growthRate growth = ''0'')"
    by (simp add: growthDenominator_def userGrowth_def Let_def)
  have revenue: "let revenue = revenueMetricsOf months payers
    in uniquePayingUsers revenue = 0 \<longrightarrow> arpu revenue = ''0''"
    by (simp add: revenueMetricsOf_def Let_def)
  from funnel payment auth engagement limits health growth revenue show ?thesis
    by (intro conjI)
qed

text \<open>The guards at rows with an empty denominator.\<close>

theorem zero_denominator_guards_witness:
  "registrations (conversionFunnelOf [0] [] [] []) = 0 \<and>
   registrationToFirstMessage (conversionRates (conversionFunnelOf [0] [] [] [])) = ''0'' \<and>
   overallConversion (conversionRates (conversionFunnelOf [0] [] [] [])) = ''0'' \<and>
   firstMessageToPaymentIntent (conversionRates (conversionFunnelOf [0] [] [] [])) = ''0'' \<and>
   paymentIntentToCompletion (conversionRates (conversionFunnelOf [0] [] [] [])) = ''0'' \<and>
   map tierSuccessRate
     (tierStats (paymentAnalysisOf [\<lparr>ts_tier = ''basic'', ts_totalAttempts = 0, ts_successful = 0\<rparr>] []))
     = [''0''] \<and>
   averageProcessingTime
     (paymentAnalysisOf [\<lparr>ts_tier = ''basic'', ts_totalAttempts = 0, ts_successful = 0\<rparr>] []) = ''0'' \<and>
   map percentage
     (providerStats (authenticationPatternsOf [\<lparr>ps_provider = ''google'', ps_count = 0\<rparr>])) = [''0''] \<and>
   avgMessages [] = ''0'' \<and>
   averageMessagesOnLimitDays
     (rateLimitingImpactOf [\<lparr>dc_userId = ''u1'', dc_date = (0::int), dc_messageCount = 4\<rparr>]) = ''0'' \<and>
   map successRate
     (apiStats (systemHealthOf
        [\<lparr>as_action = ''chat'', as_totalRequests = 0, as_successfulRequests = 0\<rparr>] [])) = [''0''] \<and>
   growthRate
     (userGrowth \<lparr>users = [], accounts = [], messageLogs = [], requestLogs = [], userCredits = [],
                  paymentIntents = [], paymentRecords = []\<rparr> 0 0 (\<lambda>i. 0) P7d) = ''0'' \<and>
   arpu (revenueMetricsOf [\<lparr>mr_month = ''2024-01'', mr_revenue = Some 500, mr_transactions = 1\<rparr>] [])
     = ''0''"
  using zero_denominator_guards
    [where totalUsers = "[0]" and firstMessageUsers = "[]" and paymentIntentUsers = "[]"
       and completedPaymentUsers = "[]"
       and tiers = "[\<lparr>ts_tier = ''basic'', ts_totalAttempts = 0, ts_successful = 0\<rparr>]"
       and samples = "[]"
       and providers = "[\<lparr>ps_provider = ''google'', ps_count = 0\<rparr>]"
       and perUser = "[]"
       and counts = "[\<lparr>dc_userId = ''u1'', dc_date = (0::int), dc_messageCount = 4\<rparr>]"
       and stats = "[\<lparr>as_action = ''chat'', as_totalRequests = 0, as_successfulRequests = 0\<rparr>]"
       and errors = "[]"
       and d = "\<lparr>users = [], accounts = [], messageLogs = [], requestLogs = [], userCredits = [],
                  paymentIntents = [], paymentRecords = []\<rparr>"
       and now = 0 and later = 0 and rand = "\<lambda>i. 0" and p = P7d
       and months = "[\<lparr>mr_month = ''2024-01'', mr_revenue = Some 500, mr_transactions = 1\<rparr>]"
       and payers = "[]"]
  by (simp add: Let_def conversionFunnelOf_def firstCountOr_def paymentAnalysisOf_def
        authenticationPatternsOf_def rateLimitingImpactOf_def usersHittingLimits_def
        systemHealthOf_def userGrowth_def selectCount_def revenueMetricsOf_def)

subsection \<open>The percentages of authenticationPatterns\<close>

lemma authenticationPatternsOf_total:
  "totalAccounts (authenticationPatternsOf stats) = sum_list (map ps_count stats)"
  by (simp add: authenticationPatternsOf_def Let_def foldl_add_nat)

lemma authenticationPatternsOf_percentages:
  "map percentage (providerStats (authenticationPatternsOf stats))
     = map (\<lambda>s. ratePercent (ps_count s) (sum_list (map ps_count stats))) stats"
  by (simp add: authenticationPatternsOf_def Let_def foldl_add_nat comp_def)

lemma authenticationPatternsOf_counts:
  "map ps_count (providerStats (authenticationPatternsOf stats)) = map ps_count stats"
  by (simp add: authenticationPatternsOf_def Let_def comp_def)

text \<open>
  Claim C4. In the result of \<^verbatim>\<open>authenticationPatterns\<close>, \<^verbatim>\<open>totalAccounts\<close> is the
  sum of the counts of the providers; when it is positive, every percentage is
  \<^verbatim>\<open>count / totalAccounts * 100\<close> formatted to 2 decimals and the percentages,
  read as decimals, sum to 100 up to the rounding: within half a hundredth for
  each provider, and \<open>10^-13\<close> for the binary64 arithmetic; when it is zero,
  every percentage is the text \<^verbatim>\<open>"0"\<close>. The statement holds for any rows of
  the grouped query, of which the procedure is an instance.
\<close>

theorem authenticationPatterns_percentages:
  "(let result = authenticationPatternsOf stats
    in totalAccounts result = sum_list (map ps_count (providerStats result)) \<and>
       (0 < totalAccounts result \<longrightarrow>
          (\<forall>s \<in> set (providerStats result).
             percentage s =
               toFixed2 (nmul (ndiv (Fin (real (ps_count s))) (Fin (real (totalAccounts result))))
                              (Fin 100))) \<and>
          (\<exists>vs. map (\<lambda>s. decimalValue (percentage s)) (providerStats result) = map Some vs \<and>
                \<bar>sum_list vs - 100\<bar> \<le> real (length vs) / 200 + 1 / 10 ^ 13)) \<and>
       (totalAccounts result = 0 \<longrightarrow> (\<forall>s \<in> set (providerStats result). percentage s = ''0''))) \<and>
   authenticationPatterns d = authenticationPatternsOf (providerStatsQuery d)"
proof -
  define T where "T = sum_list (map ps_count stats)"
  define result where "result = authenticationPatternsOf stats"
  have total: "totalAccounts result = T"
    by (simp add: result_def T_def authenticationPatternsOf_total)
  have sum: "totalAccounts result = sum_list (map ps_count (providerStats result))"
    by (simp add: result_def authenticationPatternsOf_total authenticationPatternsOf_counts)
  have zero: "totalAccounts result = 0 \<longrightarrow> (\<forall>s \<in> set (providerStats result). percentage s = ''0'')"
    by (auto simp: result_def authenticationPatternsOf_def Let_def)
  have pos: "0 < totalAccounts result \<longrightarrow>
          (\<forall>s \<in> set (providerStats result).
             percentage s =
               toFixed2 (nmul (ndiv (Fin (real (ps_count s))) (Fin (real (totalAccounts result))))
                              (Fin 100))) \<and>
          (\<exists>vs. map (\<lambda>s. decimalValue (percentage s)) (providerStats result) = map Some vs \<and>
                \<bar>sum_list vs - 100\<bar> \<le> real (length vs) / 200 + 1 / 10 ^ 13)"
  proof
    assume "0 < totalAccounts result"
    then have T: "0 < T" by (simp add: total)
    have each: "\<forall>s \<in> set (providerStats result).
             percentage s =
               toFixed2 (nmul (ndiv (Fin (real (ps_count s))) (Fin (real (totalAccounts result))))
                              (Fin 100))"
      using T unfolding total
      by (auto simp: result_def authenticationPatternsOf_def Let_def foldl_add_nat T_def ratePercent_def)
    define v :: "providerStat \<Rightarrow> real" where "v = (\<lambda>s. the (decimalValue (ratePercent (ps_count s) T)))"
    have v: "decimalValue (ratePercent (ps_count s) T) = Some (v s) \<and>
             \<bar>v s - 100 * (real (ps_count s) / real T)\<bar>
               \<le> 1 / 200 + (real (ps_count s) / real T) / 10 ^ 13" for s :: providerStat
      using ratePercent_accuracy [OF T, of "ps_count s"] by (auto simp: v_def)
    have "map (\<lambda>s. decimalValue (percentage s)) (providerStats result)
            = map decimalValue (map percentage (providerStats result))"
      by simp
    also have "\<dots> = map Some (map v stats)"
      unfolding result_def authenticationPatternsOf_percentages T_def [symmetric]
      using v by simp
    finally have vals: "map (\<lambda>s. decimalValue (percentage s)) (providerStats result)
                            = map Some (map v stats)" .
    have "\<bar>sum_list (map v stats) - 100\<bar> \<le> real (length stats) / 200 + 1 / 10 ^ 13"
      using T v unfolding T_def by (intro percent_sum) auto
    then have "\<bar>sum_list (map v stats) - 100\<bar> \<le> real (length (map v stats)) / 200 + 1 / 10 ^ 13"
      by simp
    then show "(\<forall>s \<in> set (providerStats result).
             percentage s =
               toFixed2 (nmul (ndiv (Fin (real (ps_count s))) (Fin (real (totalAccounts result))))
                              (Fin 100))) \<and>
          (\<exists>vs. map (\<lambda>s. decimalValue (percentage s)) (providerStats result) = map Some vs \<and>
                \<bar>sum_list vs - 100\<bar> \<le> real (length vs) / 200 + 1 / 10 ^ 13)"
      using each vals by blast
  qed
  have "authenticationPatterns d = authenticationPatternsOf (providerStatsQuery d)"
    by (simp add: authenticationPatterns_def)
  then show ?thesis
    unfolding Let_def result_def [symmetric] using sum pos zero by blast
qed

text \<open>
  Two accounts of one provider and one of another: \<^verbatim>\<open>"66.67"\<close> and
  \<^verbatim>\<open>"33.33"\<close>; and a row with no account.
\<close>

lemma authExample_stats:
  "providerStatsQuery authExample
     = [\<lparr>ps_provider = ''google'', ps_count = 2\<rparr>, \<lparr>ps_provider = ''github'', ps_count = 1\<rparr>]"
  by (simp add: providerStatsQuery_def orderByDesc_def groupBy_def authExample_def)

theorem authenticationPatterns_percentages_witness:
  "totalAccounts (authenticationPatterns authExample) = 3 \<and>
   map percentage (providerStats (authenticationPatterns authExample)) = [''66.67'', ''33.33''] \<and>
   (\<exists>vs. map (\<lambda>s. decimalValue (percentage s)) (providerStats (authenticationPatterns authExample))
            = map Some vs \<and>
         \<bar>sum_list vs - 100\<bar> \<le> real (length vs) / 200 + 1 / 10 ^ 13) \<and>
   totalAccounts (authenticationPatternsOf [\<lparr>ps_provider = ''google'', ps_count = 0\<rparr>]) = 0 \<and>
   map percentage (providerStats (authenticationPatternsOf [\<lparr>ps_provider = ''google'', ps_count = 0\<rparr>]))
     = [''0'']"
proof -
  have n: "totalAccounts (authenticationPatterns authExample) = 3"
    by (simp add: authenticationPatterns_def authenticationPatternsOf_total authExample_stats)
  have p: "map percentage (providerStats (authenticationPatterns authExample)) = [''66.67'', ''33.33'']"
    by (simp add: authenticationPatterns_def authenticationPatternsOf_percentages authExample_stats
          ratePercent_2_3 ratePercent_1_3 [unfolded One_nat_def])
  have z: "totalAccounts (authenticationPatternsOf [\<lparr>ps_provider = ''google'', ps_count = 0\<rparr>]) = 0"
    by (simp add: authenticationPatternsOf_total)
  have ex: "\<exists>vs. map (\<lambda>s. decimalValue (percentage s)) (providerStats (authenticationPatterns authExample))
            = map Some vs \<and>
         \<bar>sum_list vs - 100\<bar> \<le> real (length vs) / 200 + 1 / 10 ^ 13"
    using authenticationPatterns_percentages [of "providerStatsQuery authExample" authExample] n
    unfolding Let_def authenticationPatterns_def by simp
  have "\<forall>s \<in> set (providerStats (authenticationPatternsOf [\<lparr>ps_provider = ''google'', ps_count = 0\<rparr>])).
          percentage s = ''0''"
    using authenticationPatterns_percentages [of "[\<lparr>ps_provider = ''google'', ps_count = 0\<rparr>]" authExample] z
    unfolding Let_def by blast
  then have q: "map percentage (providerStats (authenticationPatternsOf [\<lparr>ps_provider = ''google'', ps_count = 0\<rparr>]))
     = [''0'']"
    by (simp add: authenticationPatternsOf_def Let_def)
  show ?thesis using n p ex z q by blast
qed

subsection \<open>The totals of revenueMetrics\<close>

text \<open>
  The error of a sum that is rounded after every addition, each term rounded
  first; and the sums of integers that binary64 holds exactly.
\<close>

lemma sum_step_bound:
  fixes u c A ax E E' :: real
  assumes u: "0 \<le> u" and c: "1 \<le> c" and A: "0 \<le> A" and ax: "0 \<le> ax"
    and E: "E \<le> (c - 1) * A"
    and E': "E' \<le> (1 + u) * E + u * A + (2 * u + u * u) * ax"
  shows "E' \<le> ((1 + u) * (1 + u) * c - 1) * (A + ax)"
proof -
  have "(1 + u) * E \<le> (1 + u) * ((c - 1) * A)"
    using E u by (intro mult_left_mono) simp_all
  then have one: "E' \<le> ((1 + u) * c - 1) * A + (2 * u + u * u) * ax"
    using E' by (simp add: algebra_simps)
  have uc: "u * 1 \<le> u * c" using u c by (intro mult_left_mono) simp_all
  have "0 \<le> u * ((1 + u) * c)" using u c by simp
  then have "(1 + u) * c \<le> (1 + u) * (1 + u) * c" by (simp add: algebra_simps)
  then have "((1 + u) * c - 1) * A \<le> ((1 + u) * (1 + u) * c - 1) * A"
    using A by (intro mult_right_mono) simp_all
  moreover have "(1 + u) * (1 + u) * 1 \<le> (1 + u) * (1 + u) * c"
    using u c by (intro mult_left_mono) simp_all
  then have "2 * u + u * u \<le> (1 + u) * (1 + u) * c - 1" by (simp add: algebra_simps)
  then have "(2 * u + u * u) * ax \<le> ((1 + u) * (1 + u) * c - 1) * ax"
    using ax by (intro mult_right_mono) simp_all
  ultimately show ?thesis using one by (simp add: algebra_simps)
qed

lemma binary64_sum_error:
  "\<bar>foldl (\<lambda>s x. fadd s (fl x)) 0 xs - sum_list xs\<bar>
     \<le> ((1 + 1 / 2 ^ 53) ^ (2 * length xs) - 1) * (\<Sum>x\<leftarrow>xs. \<bar>x\<bar>)"
proof (induction xs rule: rev_induct)
  case Nil
  then show ?case by simp
next
  case (snoc x xs)
  define u :: real where "u = 1 / 2 ^ 53"
  define g where "g = foldl (\<lambda>s x. fadd s (fl x)) 0 xs"
  define S where "S = sum_list xs"
  define A where "A = (\<Sum>x\<leftarrow>xs. \<bar>x\<bar>)"
  define c where "c = (1 + u) ^ (2 * length xs)"
  define y where "y = fl x"
  have u0: "0 \<le> u" by (simp add: u_def)
  have c1: "1 \<le> c" unfolding c_def using u0 by (intro one_le_power) simp
  have A0: "0 \<le> A" unfolding A_def by (rule sum_list_nonneg) auto
  have SA: "\<bar>S\<bar> \<le> A" unfolding S_def A_def using sum_list_abs [of xs] by simp
  have IH: "\<bar>g - S\<bar> \<le> (c - 1) * A"
    using snoc.IH by (simp add: g_def S_def A_def c_def u_def)
  have yx: "\<bar>y - x\<bar> \<le> u * \<bar>x\<bar>"
    using fl_rel_error [of x] by (simp add: y_def u_def)
  have r: "\<bar>fl (g + y) - (g + y)\<bar> \<le> u * \<bar>g + y\<bar>"
    using fl_rel_error [of "g + y"] by (simp add: u_def)
  have "\<bar>g\<bar> \<le> A + \<bar>g - S\<bar>" using SA by linarith
  moreover have "\<bar>y\<bar> \<le> \<bar>x\<bar> + u * \<bar>x\<bar>" using yx by linarith
  ultimately have "\<bar>g + y\<bar> \<le> A + \<bar>g - S\<bar> + (\<bar>x\<bar> + u * \<bar>x\<bar>)" by linarith
  then have "u * \<bar>g + y\<bar> \<le> u * (A + \<bar>g - S\<bar> + (\<bar>x\<bar> + u * \<bar>x\<bar>))"
    using u0 by (rule mult_left_mono)
  then have r': "\<bar>fl (g + y) - (g + y)\<bar> \<le> u * (A + \<bar>g - S\<bar> + (\<bar>x\<bar> + u * \<bar>x\<bar>))"
    using r by linarith
  have "\<bar>fl (g + y) - (S + x)\<bar> \<le> \<bar>fl (g + y) - (g + y)\<bar> + \<bar>g - S\<bar> + \<bar>y - x\<bar>" by linarith
  then have "\<bar>fl (g + y) - (S + x)\<bar>
               \<le> u * (A + \<bar>g - S\<bar> + (\<bar>x\<bar> + u * \<bar>x\<bar>)) + \<bar>g - S\<bar> + u * \<bar>x\<bar>"
    using r' yx by linarith
  also have "\<dots> = (1 + u) * \<bar>g - S\<bar> + u * A + (2 * u + u * u) * \<bar>x\<bar>"
    by (simp add: algebra_simps)
  finally have E': "\<bar>fl (g + y) - (S + x)\<bar> \<le> (1 + u) * \<bar>g - S\<bar> + u * A + (2 * u + u * u) * \<bar>x\<bar>" .
  have "\<bar>fl (g + y) - (S + x)\<bar> \<le> ((1 + u) * (1 + u) * c - 1) * (A + \<bar>x\<bar>)"
    using u0 c1 A0 _ IH E' by (rule sum_step_bound) simp
  moreover have "(1 + u) * (1 + u) * c = (1 + u) ^ (2 * length (xs @ [x]))"
    by (simp add: c_def power2_eq_square [symmetric] power_add [symmetric] algebra_simps)
  ultimately have "\<bar>fl (g + y) - (S + x)\<bar> \<le> ((1 + u) ^ (2 * length (xs @ [x])) - 1) * (A + \<bar>x\<bar>)"
    by simp
  then have final: "\<bar>fl (g + y) - (S + x)\<bar>
      \<le> ((1 + 1 / 2 ^ 53) ^ (2 * length (xs @ [x])) - 1) * (A + \<bar>x\<bar>)"
    unfolding u_def .
  have fold: "foldl (\<lambda>s x. fadd s (fl x)) 0 (xs @ [x]) = fl (g + y)"
    by (simp add: g_def y_def fadd_def)
  have sums: "sum_list (xs @ [x]) = S + x" "(\<Sum>x\<leftarrow>xs @ [x]. \<bar>x\<bar>) = A + \<bar>x\<bar>"
    by (simp_all add: S_def A_def)
  show ?case unfolding fold sums by (rule final)
qed

lemma binary64_sum_exact:
  fixes ns :: "int list"
  assumes "(\<Sum>n\<leftarrow>ns. \<bar>n\<bar>) \<le> 2 ^ 53"
  shows "foldl (\<lambda>s x. fadd s (fl x)) 0 (map of_int ns) = of_int (sum_list ns)"
  using assms
proof (induction ns rule: rev_induct)
  case Nil
  then show ?case by simp
next
  case (snoc n ns)
  have A0: "0 \<le> (\<Sum>n\<leftarrow>ns. \<bar>n\<bar>)" by (rule sum_list_nonneg) auto
  have SA: "\<bar>sum_list ns\<bar> \<le> (\<Sum>n\<leftarrow>ns. \<bar>n\<bar>)" using sum_list_abs [of ns] by simp
  have all: "(\<Sum>n\<leftarrow>ns. \<bar>n\<bar>) + \<bar>n\<bar> \<le> 2 ^ 53" using snoc.prems by simp
  then have "(\<Sum>n\<leftarrow>ns. \<bar>n\<bar>) \<le> 2 ^ 53" by linarith
  then have IH: "foldl (\<lambda>s x. fadd s (fl x)) 0 (map of_int ns) = of_int (sum_list ns)"
    by (rule snoc.IH)
  have "\<bar>n\<bar> \<le> 2 ^ 53" using all A0 by linarith
  then have n: "fl (of_int n) = of_int n" by (rule fl_of_int)
  have "\<bar>sum_list ns + n\<bar> \<le> 2 ^ 53" using all SA by linarith
  then have "fl (of_int (sum_list ns + n)) = of_int (sum_list ns + n)" by (rule fl_of_int)
  then have "fadd (of_int (sum_list ns)) (of_int n) = of_int (sum_list ns + n)"
    by (simp add: fadd_def)
  moreover have "foldl (\<lambda>s x. fadd s (fl x)) 0 (map of_int (ns @ [n]))
                   = fadd (foldl (\<lambda>s x. fadd s (fl x)) 0 (map of_int ns)) (fl (of_int n))"
    by simp
  ultimately show ?case unfolding IH n by simp
qed

lemma revenueNumber_bucket:
  "revenueNumber (mr_revenue month) = Fin (fl (of_int (bucketCents month)))"
  by (simp add: revenueNumber_def bucketCents_def split: option.split)

lemma totalRevenueCents_fold:
  "foldl (\<lambda>sum month. nadd sum (revenueNumber (mr_revenue month))) (Fin a) months
     = Fin (foldl (\<lambda>s x. fadd s (fl x)) a (map (\<lambda>m. of_int (bucketCents m)) months))"
  by (induction months arbitrary: a) (simp_all add: revenueNumber_bucket)

lemma totalRevenueCents_Fin:
  "totalRevenueCents months
     = Fin (foldl (\<lambda>s x. fadd s (fl x)) 0 (map (\<lambda>m. of_int (bucketCents m)) months))"
  by (simp add: totalRevenueCents_def totalRevenueCents_fold)


lemma monthlyRevenueQuery_sum:
  "sum_list (map bucketCents (monthlyRevenueQuery TO_CHAR d r))
     = sum_list (map paymentRecord_amountCents (succeededInRange d r))"
proof -
  have "sum_list (map bucketCents (monthlyRevenueQuery TO_CHAR d r))
          = (\<Sum>(k, g)\<leftarrow>groupBy (\<lambda>pr. TO_CHAR (paymentRecord_createdAt pr)) (succeededInRange d r).
               sum_list (map paymentRecord_amountCents g))"
    unfolding monthlyRevenueQuery_def sum_list_sort_key
    by (simp add: comp_def case_prod_unfold bucketCents_def)
  then show ?thesis by (simp only: sum_list_groupBy)
qed

lemma uniquePayingUsersQuery_length:
  "length (uniquePayingUsersQuery d r) = card (paymentRecord_userId ` set (succeededInRange d r))"
  by (simp add: uniquePayingUsersQuery_def groupBy_keys length_remdups_card_conv)

lemma revenueMetricsOf_buckets:
  "map bucketCents (monthlyRevenue (revenueMetricsOf months payers)) = map bucketCents months"
  by (simp add: revenueMetricsOf_def Let_def bucketCents_def)

lemma printed_cents_error:
  fixes t C A c :: real
  assumes near: "\<bar>t - C\<bar> \<le> (c - 1) * A" and CA: "\<bar>C\<bar> \<le> A" and c: "1 \<le> c"
    and v: "\<bar>v * 100 - t\<bar> \<le> 1 / 2 + \<bar>t\<bar> / 2 ^ 53"
  shows "\<bar>v * 100 - C\<bar> \<le> 1 / 2 + ((1 + 1 / 2 ^ 53) * c - 1) * A"
proof -
  have "\<bar>t\<bar> \<le> A + (c - 1) * A" using near CA by linarith
  then have "\<bar>t\<bar> \<le> c * A" by (simp add: algebra_simps)
  then have "\<bar>t\<bar> / 2 ^ 53 \<le> c * A / 2 ^ 53" by (simp add: divide_right_mono)
  then have "\<bar>v * 100 - C\<bar> \<le> 1 / 2 + c * A / 2 ^ 53 + (c - 1) * A" using v near by linarith
  also have "\<dots> = 1 / 2 + ((1 + 1 / 2 ^ 53) * c - 1) * A" by (simp add: algebra_simps)
  finally show ?thesis .
qed

text \<open>
  Claim C5. In the result of \<^verbatim>\<open>revenueMetrics\<close>, the cents of the monthly buckets
  add up to the sum of \<^verbatim>\<open>amountCents\<close> over the succeeded payment records of the
  interval. The code adds the buckets in binary64: its total \<open>t\<close> is within the
  rounding of \<open>2 n\<close> operations of that sum, for \<open>n\<close> buckets and relative to the
  sum of the buckets' absolute values, and is the sum itself while these absolute
  values add up to at most \<open>2^53\<close> cents. \<^verbatim>\<open>totalRevenue\<close> is \<open>t / 100\<close> formatted
  to 2 decimals, so \<^verbatim>\<open>totalRevenue\<close> times 100 equals the sum of the buckets within
  half a cent and the rounding of \<open>2 n + 1\<close> operations, and exactly below \<open>2^52\<close>
  cents. \<^verbatim>\<open>arpu\<close> is \<open>t\<close> divided by the number of distinct users with a succeeded
  payment record in the interval, divided by 100 and formatted to 2 decimals, and
  \<^verbatim>\<open>"0"\<close> when there is no such user.
\<close>

theorem revenueMetrics_totals:
  "(let r = getDateRange now p;
        result = revenueMetrics TO_CHAR d now p;
        cents = sum_list (map paymentRecord_amountCents (succeededInRange d r));
        payers = card (paymentRecord_userId ` set (succeededInRange d r));
        buckets = map bucketCents (monthlyRevenue result);
        gross = (\<Sum>b\<leftarrow>buckets. \<bar>b\<bar>)
    in sum_list buckets = cents \<and>
       uniquePayingUsers result = payers \<and>
       (\<exists>t. \<bar>t - of_int cents\<bar> \<le> ((1 + 1 / 2 ^ 53) ^ (2 * length buckets) - 1) * of_int gross \<and>
            (gross \<le> 2 ^ 53 \<longrightarrow> t = of_int cents) \<and>
            totalRevenue result = toFixed2 (ndiv (Fin t) (Fin 100)) \<and>
            arpu result =
              (if 0 < payers
               then toFixed2 (ndiv (ndiv (Fin t) (Fin (real payers))) (Fin 100))
               else ''0'')) \<and>
       (\<exists>v. decimalValue (totalRevenue result) = Some v \<and>
            \<bar>v * 100 - of_int cents\<bar>
              \<le> 1 / 2 + ((1 + 1 / 2 ^ 53) ^ (2 * length buckets + 1) - 1) * of_int gross) \<and>
       (gross \<le> 2 ^ 53 \<and> \<bar>cents\<bar> < 2 ^ 52 \<longrightarrow>
          decimalValue (totalRevenue result) = Some (of_int cents / 100)))"
proof -
  define r where "r = getDateRange now p"
  define cents where "cents = sum_list (map paymentRecord_amountCents (succeededInRange d r))"
  define payers where "payers = card (paymentRecord_userId ` set (succeededInRange d r))"
  define months where "months = monthlyRevenueQuery TO_CHAR d r"
  define buckets where "buckets = map bucketCents months"
  define gross where "gross = (\<Sum>b\<leftarrow>buckets. \<bar>b\<bar>)"
  define xs :: "real list" where "xs = map of_int buckets"
  define t where "t = foldl (\<lambda>s x. fadd s (fl x)) 0 xs"
  define c :: real where "c = (1 + 1 / 2 ^ 53) ^ (2 * length buckets)"
  have result: "revenueMetrics TO_CHAR d now p = revenueMetricsOf months (uniquePayingUsersQuery d r)"
    by (simp add: revenueMetrics_def Let_def r_def months_def)
  have out: "map bucketCents (monthlyRevenue (revenueMetrics TO_CHAR d now p)) = buckets"
    by (simp add: result revenueMetricsOf_buckets buckets_def)
  have sum: "sum_list buckets = cents"
    by (simp add: buckets_def months_def monthlyRevenueQuery_sum cents_def)
  have users: "uniquePayingUsers (revenueMetrics TO_CHAR d now p) = payers"
    by (simp add: result revenueMetricsOf_def Let_def uniquePayingUsersQuery_length payers_def)
  have tot: "totalRevenueCents months = Fin t"
    by (simp add: totalRevenueCents_Fin t_def xs_def buckets_def comp_def)
  have xs_sum: "sum_list xs = of_int cents"
    unfolding xs_def sum [symmetric] by (induction buckets) simp_all
  have xs_abs: "(\<Sum>x\<leftarrow>xs. \<bar>x\<bar>) = of_int gross"
    unfolding xs_def gross_def by (induction buckets) simp_all
  have "\<bar>t - of_int cents\<bar> \<le> ((1 + 1 / 2 ^ 53) ^ (2 * length xs) - 1) * of_int gross"
    using binary64_sum_error [of xs] unfolding t_def [symmetric] xs_sum xs_abs .
  then have near: "\<bar>t - of_int cents\<bar> \<le> (c - 1) * of_int gross"
    by (simp add: c_def xs_def)
  have exact: "gross \<le> 2 ^ 53 \<longrightarrow> t = of_int cents"
  proof
    assume "gross \<le> 2 ^ 53"
    then have "foldl (\<lambda>s x. fadd s (fl x)) 0 (map of_int buckets) = of_int (sum_list buckets)"
      unfolding gross_def by (rule binary64_sum_exact)
    then show "t = of_int cents" by (simp add: t_def xs_def sum)
  qed
  have shown: "totalRevenue (revenueMetrics TO_CHAR d now p) = toFixed2 (ndiv (Fin t) (Fin 100))"
    by (simp add: result revenueMetricsOf_def Let_def tot)
  have arpu: "arpu (revenueMetrics TO_CHAR d now p) =
         (if 0 < payers
          then toFixed2 (ndiv (ndiv (Fin t) (Fin (real payers))) (Fin 100))
          else ''0'')"
    by (simp add: result revenueMetricsOf_def Let_def uniquePayingUsersQuery_length tot
          payers_def [symmetric])
  have code: "\<exists>t. \<bar>t - of_int cents\<bar> \<le> (c - 1) * of_int gross \<and>
            (gross \<le> 2 ^ 53 \<longrightarrow> t = of_int cents) \<and>
            totalRevenue (revenueMetrics TO_CHAR d now p) = toFixed2 (ndiv (Fin t) (Fin 100)) \<and>
            arpu (revenueMetrics TO_CHAR d now p) =
              (if 0 < payers
               then toFixed2 (ndiv (ndiv (Fin t) (Fin (real payers))) (Fin 100))
               else ''0'')"
    using near exact shown arpu by blast
  obtain v where v: "decimalValue (toFixed2 (ndiv (Fin t) (Fin 100))) = Some v"
      "\<bar>v * 100 - t\<bar> \<le> 1 / 2 + \<bar>t\<bar> / 2 ^ 53"
    using cents_tolerance by blast
  have c1: "1 \<le> c" unfolding c_def by (intro one_le_power) simp
  have "\<bar>sum_list buckets\<bar> \<le> gross" unfolding gross_def using sum_list_abs [of buckets] by simp
  then have "\<bar>cents\<bar> \<le> gross" by (simp add: sum)
  then have "real_of_int \<bar>cents\<bar> \<le> real_of_int gross" by (simp only: of_int_le_iff)
  then have CA: "\<bar>real_of_int cents\<bar> \<le> real_of_int gross" by simp
  have "\<bar>v * 100 - of_int cents\<bar> \<le> 1 / 2 + ((1 + 1 / 2 ^ 53) * c - 1) * of_int gross"
    using near CA c1 v(2) by (rule printed_cents_error)
  moreover have "(1 + 1 / 2 ^ 53) * c = (1 + 1 / 2 ^ 53) ^ (2 * length buckets + 1)"
    by (simp add: c_def)
  ultimately have "\<bar>v * 100 - of_int cents\<bar>
       \<le> 1 / 2 + ((1 + 1 / 2 ^ 53) ^ (2 * length buckets + 1) - 1) * of_int gross"
    by (simp only:)
  then have tolerance: "\<exists>v. decimalValue (totalRevenue (revenueMetrics TO_CHAR d now p)) = Some v \<and>
            \<bar>v * 100 - of_int cents\<bar>
              \<le> 1 / 2 + ((1 + 1 / 2 ^ 53) ^ (2 * length buckets + 1) - 1) * of_int gross"
    using v(1) unfolding shown by blast
  have small: "gross \<le> 2 ^ 53 \<and> \<bar>cents\<bar> < 2 ^ 52 \<longrightarrow>
                 decimalValue (totalRevenue (revenueMetrics TO_CHAR d now p)) = Some (of_int cents / 100)"
    unfolding shown using exact cents_exact by auto
  show ?thesis
    unfolding Let_def r_def [symmetric] cents_def [symmetric] payers_def [symmetric] out
      gross_def [symmetric] c_def [symmetric]
    by (rule conjI [OF sum conjI [OF users conjI [OF code conjI [OF tolerance small]]]])
qed

text \<open>
  Beyond \<open>2^53\<close> cents the running sum rounds: the buckets \<open>2^53 + 1\<close> and \<open>- 2^53\<close> add
  up to 1 cent, and to 0 in the code.
\<close>

lemma totalRevenueCents_rounds:
  "totalRevenueCents [\<lparr>mr_month = ''2024-01'', mr_revenue = Some (2 ^ 53 + 1), mr_transactions = 1\<rparr>,
                      \<lparr>mr_month = ''2024-02'', mr_revenue = Some (- (2 ^ 53)), mr_transactions = 1\<rparr>]
     = Fin 0"
proof -
  have a: "fl 9007199254740993 = 9007199254740992" by code_simp
  have b: "fl 9007199254740992 = 9007199254740992" by code_simp
  have c: "fl (- 9007199254740992) = - 9007199254740992" by code_simp
  show ?thesis
    by (simp add: totalRevenueCents_def revenueNumber_def fadd_def a b c)
qed

text \<open>
  Three succeeded payments of two users in two months, one failed payment and
  one before the interval.
\<close>

lemma revenueExample_paid:
  "succeededInRange revenueExample (getDateRange 5184000000 P90d)
     = [payment 1 ''ann'' ''succeeded'' 2000 1000,
        payment 2 ''ann'' ''succeeded'' 500 2592001000,
        payment 3 ''bob'' ''succeeded'' 1500 2000]"
  by (simp add: succeededInRange_def revenueExample_def payment_def inRange_def getDateRange_def
        daysBack_def)

lemma forty: "toFixed2 (ndiv (Fin 4000) (Fin 100)) = ''40.00''"
proof -
  have "fdiv 4000 100 = 40" using fl_of_int [of 40] by (simp add: fdiv_def)
  moreover have "toFixed2 (Fin 40) = ''40.00''"
    by (subst toFixed2_eval [where n = 4000])
       (simp_all add: decimalDigits_small decimalDigits_large digitChar_def)
  ultimately show ?thesis by simp
qed

lemma twenty: "toFixed2 (ndiv (ndiv (Fin 4000) (Fin 2)) (Fin 100)) = ''20.00''"
proof -
  have "fdiv 4000 2 = 2000" using fl_of_int [of 2000] by (simp add: fdiv_def)
  moreover have "fdiv 2000 100 = 20" using fl_of_int [of 20] by (simp add: fdiv_def)
  moreover have "toFixed2 (Fin 20) = ''20.00''"
    by (subst toFixed2_eval [where n = 2000])
       (simp_all add: decimalDigits_small decimalDigits_large digitChar_def)
  ultimately show ?thesis by simp
qed

theorem revenueMetrics_totals_witness:
  "map mr_revenue (monthlyRevenue (revenueMetrics thirtyDays revenueExample 5184000000 P90d))
     = [Some 3500, Some 500] \<and>
   totalRevenue (revenueMetrics thirtyDays revenueExample 5184000000 P90d) = ''40.00'' \<and>
   decimalValue (totalRevenue (revenueMetrics thirtyDays revenueExample 5184000000 P90d)) = Some 40 \<and>
   uniquePayingUsers (revenueMetrics thirtyDays revenueExample 5184000000 P90d) = 2 \<and>
   arpu (revenueMetrics thirtyDays revenueExample 5184000000 P90d) = ''20.00''"
proof -
  let ?r = "getDateRange 5184000000 P90d"
  let ?result = "revenueMetrics thirtyDays revenueExample 5184000000 P90d"
  have cents: "sum_list (map paymentRecord_amountCents (succeededInRange revenueExample ?r)) = 4000"
    by (simp add: revenueExample_paid payment_def)
  have payers: "card (paymentRecord_userId ` set (succeededInRange revenueExample ?r)) = 2"
    by (simp add: revenueExample_paid payment_def)
  have months: "map mr_revenue (monthlyRevenue ?result) = [Some 3500, Some 500]"
    by (simp add: revenueMetrics_def revenueMetricsOf_def Let_def monthlyRevenueQuery_def groupBy_def
          revenueExample_paid payment_def thirtyDays_def)
  have "map bucketCents (monthlyRevenue ?result)
          = map (\<lambda>v. case v of None \<Rightarrow> 0 | Some cents \<Rightarrow> cents) (map mr_revenue (monthlyRevenue ?result))"
    by (simp add: bucketCents_def [abs_def] comp_def)
  then have buckets: "map bucketCents (monthlyRevenue ?result) = [3500, 500]"
    unfolding months by simp
  note t = revenueMetrics_totals [of 5184000000 P90d thirtyDays revenueExample,
      unfolded Let_def cents payers buckets]
  from t obtain x where x: "x = 4000"
      "totalRevenue ?result = toFixed2 (ndiv (Fin x) (Fin 100))"
      "arpu ?result = toFixed2 (ndiv (ndiv (Fin x) (Fin 2)) (Fin 100))"
    by auto
  have "totalRevenue ?result = ''40.00''"
    using x(2) unfolding x(1) by (simp only: forty)
  moreover have "decimalValue (totalRevenue ?result) = Some (real_of_int 4000 / 100)"
    by (rule t [THEN conjunct2, THEN conjunct2, THEN conjunct2, THEN conjunct2, THEN mp]) simp
  then have "decimalValue (totalRevenue ?result) = Some 40" by simp
  moreover have "uniquePayingUsers ?result = 2"
    by (rule t [THEN conjunct2, THEN conjunct1])
  moreover have "arpu ?result = ''20.00''"
    using x(3) unfolding x(1) by (simp only: twenty)
  ultimately show ?thesis using months by simp
qed
subsection \<open>The success rates of systemHealth\<close>

lemma apiStats_iff:
  "s \<in> set (apiStats (systemHealth d now p)) \<longleftrightarrow>
     (\<exists>k. requestsFor d (getDateRange now p) k \<noteq> [] \<and>
          s = \<lparr>as_action = k,
                as_totalRequests = length (requestsFor d (getDateRange now p) k),
                as_successfulRequests =
                  length (filter requestLog_success (requestsFor d (getDateRange now p) k)),
                successRate =
                  ratePercent (length (filter requestLog_success (requestsFor d (getDateRange now p) k)))
                    (length (requestsFor d (getDateRange now p) k))\<rparr>)"
  (is "?L \<longleftrightarrow> ?R")
proof
  assume ?L
  then obtain k g where kg: "(k, g) \<in> set (groupBy requestLog_action (requestsInRange d (getDateRange now p)))"
    and s: "s = \<lparr>as_action = k, as_totalRequests = length g,
                   as_successfulRequests = length (filter requestLog_success g),
                   successRate = ratePercent (length (filter requestLog_success g)) (length g)\<rparr>"
    by (auto simp: systemHealth_def systemHealthOf_def apiStatsQuery_def Let_def)
  have "g = requestsFor d (getDateRange now p) k" using kg by (simp add: groupBy_iff requestsFor_def)
  moreover have "g \<noteq> []" using kg by (rule groupBy_nonempty)
  ultimately show ?R using s by blast
next
  assume ?R
  then obtain k where ne: "requestsFor d (getDateRange now p) k \<noteq> []"
    and s: "s = \<lparr>as_action = k,
                as_totalRequests = length (requestsFor d (getDateRange now p) k),
                as_successfulRequests =
                  length (filter requestLog_success (requestsFor d (getDateRange now p) k)),
                successRate =
                  ratePercent (length (filter requestLog_success (requestsFor d (getDateRange now p) k)))
                    (length (requestsFor d (getDateRange now p) k))\<rparr>"
    by blast
  from ne have "k \<in> requestLog_action ` set (requestsInRange d (getDateRange now p))"
    by (auto simp: requestsFor_def filter_empty_conv)
  then have "(k, requestsFor d (getDateRange now p) k)
               \<in> set (groupBy requestLog_action (requestsInRange d (getDateRange now p)))"
    by (simp add: groupBy_iff requestsFor_def)
  then show ?L
    unfolding systemHealth_def systemHealthOf_def apiStatsQuery_def Let_def s
    by (force simp: image_iff)
qed

lemma systemHealth_totalRequests:
  "totalRequests (systemHealth d now p) = sum_list (map as_totalRequests (apiStats (systemHealth d now p)))"
  "totalRequests (systemHealth d now p) = length (requestsInRange d (getDateRange now p))"
proof -
  show "totalRequests (systemHealth d now p) = sum_list (map as_totalRequests (apiStats (systemHealth d now p)))"
    by (simp add: systemHealth_def systemHealthOf_def Let_def foldl_add_nat comp_def)
  have "totalRequests (systemHealth d now p)
          = (\<Sum>x\<leftarrow>groupBy requestLog_action (requestsInRange d (getDateRange now p)). length (snd x))"
    by (simp add: systemHealth_def systemHealthOf_def apiStatsQuery_def Let_def foldl_add_nat comp_def
          case_prod_beta)
  then show "totalRequests (systemHealth d now p) = length (requestsInRange d (getDateRange now p))"
    by (simp only: length_groupBy_snd)
qed

text \<open>
  Claim C6. Every entry of \<^verbatim>\<open>apiStats\<close> in the result of \<^verbatim>\<open>systemHealth\<close> counts
  the requests of its action in the interval and those of them that succeeded,
  and its \<^verbatim>\<open>successRate\<close> is \<^verbatim>\<open>successfulRequests / totalRequests * 100\<close>
  formatted to 2 decimals (the division and the product are those of the code,
  and the text is within half a hundredth of the exact percentage); the top-level
  \<^verbatim>\<open>totalRequests\<close> is the sum of \<^verbatim>\<open>totalRequests\<close> over the entries; and an
  action \<^verbatim>\<open>chat\<close> with 100 successful and 5 failed rows in the interval yields
  the entry with 105, 100 and \<^verbatim>\<open>"95.24"\<close>.
\<close>

theorem systemHealth_success_rates:
  "(let r = getDateRange now p;
        result = systemHealth d now p
    in (\<forall>s \<in> set (apiStats result).
          0 < as_totalRequests s \<and>
          as_totalRequests s = length (requestsFor d r (as_action s)) \<and>
          as_successfulRequests s = length (filter requestLog_success (requestsFor d r (as_action s))) \<and>
          successRate s =
            toFixed2 (nmul (ndiv (Fin (real (as_successfulRequests s))) (Fin (real (as_totalRequests s))))
                           (Fin 100)) \<and>
          (\<exists>v. decimalValue (successRate s) = Some v \<and>
               \<bar>v - 100 * (real (as_successfulRequests s) / real (as_totalRequests s))\<bar>
                 \<le> 1 / 200 + 1 / 10 ^ 13)) \<and>
       totalRequests result = sum_list (map as_totalRequests (apiStats result)) \<and>
       totalRequests result = length (requestsInRange d r) \<and>
       (length (requestsFor d r ''chat'') = 105 \<and>
        length (filter requestLog_success (requestsFor d r ''chat'')) = 100 \<longrightarrow>
          \<lparr>as_action = ''chat'', as_totalRequests = 105, as_successfulRequests = 100,
           successRate = ''95.24''\<rparr> \<in> set (apiStats result)))"
proof -
  define r where "r = getDateRange now p"
  have entries: "\<forall>s \<in> set (apiStats (systemHealth d now p)).
          0 < as_totalRequests s \<and>
          as_totalRequests s = length (requestsFor d r (as_action s)) \<and>
          as_successfulRequests s = length (filter requestLog_success (requestsFor d r (as_action s))) \<and>
          successRate s =
            toFixed2 (nmul (ndiv (Fin (real (as_successfulRequests s))) (Fin (real (as_totalRequests s))))
                           (Fin 100)) \<and>
          (\<exists>v. decimalValue (successRate s) = Some v \<and>
               \<bar>v - 100 * (real (as_successfulRequests s) / real (as_totalRequests s))\<bar>
                 \<le> 1 / 200 + 1 / 10 ^ 13)"
  proof
    fix s assume "s \<in> set (apiStats (systemHealth d now p))"
    then obtain k where ne: "requestsFor d r k \<noteq> []"
      and s: "s = \<lparr>as_action = k,
                as_totalRequests = length (requestsFor d r k),
                as_successfulRequests = length (filter requestLog_success (requestsFor d r k)),
                successRate = ratePercent (length (filter requestLog_success (requestsFor d r k)))
                    (length (requestsFor d r k))\<rparr>"
      unfolding apiStats_iff r_def by blast
    define t where "t = length (requestsFor d r k)"
    define c where "c = length (filter requestLog_success (requestsFor d r k))"
    have t: "0 < t" using ne by (simp add: t_def)
    have c: "c \<le> t" unfolding c_def t_def by (rule length_filter_le)
    obtain v where v: "decimalValue (ratePercent c t) = Some v"
      "\<bar>v - 100 * (real c / real t)\<bar> \<le> 1 / 200 + (real c / real t) / 10 ^ 13"
      using ratePercent_accuracy [OF t] by blast
    have "real c / real t \<le> 1" using c t by simp
    then have "(real c / real t) / 10 ^ 13 \<le> 1 / 10 ^ 13" by (simp add: divide_right_mono)
    then have "\<bar>v - 100 * (real c / real t)\<bar> \<le> 1 / 200 + 1 / 10 ^ 13" using v(2) by linarith
    then show "0 < as_totalRequests s \<and>
               as_totalRequests s = length (requestsFor d r (as_action s)) \<and>
          as_successfulRequests s = length (filter requestLog_success (requestsFor d r (as_action s))) \<and>
          successRate s =
            toFixed2 (nmul (ndiv (Fin (real (as_successfulRequests s))) (Fin (real (as_totalRequests s))))
                           (Fin 100)) \<and>
          (\<exists>v. decimalValue (successRate s) = Some v \<and>
               \<bar>v - 100 * (real (as_successfulRequests s) / real (as_totalRequests s))\<bar>
                 \<le> 1 / 200 + 1 / 10 ^ 13)"
      using v(1) t by (simp add: s t_def [symmetric] c_def [symmetric]) (simp add: ratePercent_def)
  qed
  have chat: "length (requestsFor d r ''chat'') = 105 \<and>
        length (filter requestLog_success (requestsFor d r ''chat'')) = 100 \<longrightarrow>
          \<lparr>as_action = ''chat'', as_totalRequests = 105, as_successfulRequests = 100,
           successRate = ''95.24''\<rparr> \<in> set (apiStats (systemHealth d now p))"
  proof
    assume a: "length (requestsFor d r ''chat'') = 105 \<and>
        length (filter requestLog_success (requestsFor d r ''chat'')) = 100"
    then have "requestsFor d r ''chat'' \<noteq> []" by auto
    then show "\<lparr>as_action = ''chat'', as_totalRequests = 105, as_successfulRequests = 100,
           successRate = ''95.24''\<rparr> \<in> set (apiStats (systemHealth d now p))"
      unfolding apiStats_iff r_def [symmetric] using a
      by (intro exI [of _ "''chat''"]) (simp add: ratePercent_100_105)
  qed
  have sum: "totalRequests (systemHealth d now p)
               = sum_list (map as_totalRequests (apiStats (systemHealth d now p)))"
    by (rule systemHealth_totalRequests)
  have len: "totalRequests (systemHealth d now p) = length (requestsInRange d r)"
    unfolding r_def by (rule systemHealth_totalRequests)
  show ?thesis
    unfolding Let_def r_def [symmetric]
    by (rule conjI [OF entries conjI [OF sum conjI [OF len chat]]])
qed

text \<open>A table of 100 successful and 5 failed requests of \<^verbatim>\<open>chat\<close>.\<close>

theorem systemHealth_success_rates_witness:
  "length (requestsFor healthExample (getDateRange 10000 P7d) ''chat'') = 105 \<and>
   length (filter requestLog_success (requestsFor healthExample (getDateRange 10000 P7d) ''chat'')) = 100 \<and>
   \<lparr>as_action = ''chat'', as_totalRequests = 105, as_successfulRequests = 100, successRate = ''95.24''\<rparr>
     \<in> set (apiStats (systemHealth healthExample 10000 P7d)) \<and>
   totalRequests (systemHealth healthExample 10000 P7d) = 105"
proof -
  have rows: "requestsFor healthExample (getDateRange 10000 P7d) ''chat''
                = map (chatRequest True) [0..99] @ map (chatRequest False) [100..104]"
    by (simp add: requestsFor_def requestsInRange_def healthExample_def filter_map comp_def
          chatRequest_def inRange_def getDateRange_def daysBack_def)
  have all: "requestsInRange healthExample (getDateRange 10000 P7d)
                = map (chatRequest True) [0..99] @ map (chatRequest False) [100..104]"
    by (simp add: requestsInRange_def healthExample_def filter_map comp_def
          chatRequest_def inRange_def getDateRange_def daysBack_def)
  have n: "length (requestsFor healthExample (getDateRange 10000 P7d) ''chat'') = 105"
    by (simp add: rows)
  have m: "length (filter requestLog_success (requestsFor healthExample (getDateRange 10000 P7d) ''chat'')) = 100"
    by (simp add: rows filter_map comp_def chatRequest_def)
  show ?thesis
    using systemHealth_success_rates [of 10000 P7d healthExample] n m
    by (simp add: Let_def all)
qed

subsection \<open>Limit-hit days\<close>

text \<open>
  The rows of the grouped query: one row for every pair of a user and a day with
  a message in the interval, holding the number of those messages.
\<close>

lemma dailyMessageCounts_row:
  assumes "g \<in> set (dailyMessageCounts DATE d r)"
  shows "dc_messageCount g = messagesOn DATE d r (dc_userId g) (dc_date g)"
    and "0 < dc_messageCount g"
proof -
  let ?kf = "\<lambda>m. (messageLog_userId m, DATE (messageLog_createdAt m))"
  from assms obtain u day rows
    where kr: "((u, day), rows) \<in> set (groupBy ?kf (messagesInRange d r))"
      and g: "g = \<lparr>dc_userId = u, dc_date = day, dc_messageCount = length rows\<rparr>"
    by (auto simp: dailyMessageCounts_def)
  have rows: "rows = filter (\<lambda>m. ?kf m = (u, day)) (messagesInRange d r)"
    using kr by (simp add: groupBy_iff)
  show "dc_messageCount g = messagesOn DATE d r (dc_userId g) (dc_date g)"
    by (simp add: g rows messagesOn_def)
  show "0 < dc_messageCount g" using groupBy_nonempty [OF kr] by (simp add: g)
qed

lemma dailyMessageCounts_keys:
  "map (\<lambda>g. (dc_userId g, dc_date g)) (dailyMessageCounts DATE d r)
     = remdups (map (\<lambda>m. (messageLog_userId m, DATE (messageLog_createdAt m))) (messagesInRange d r))"
proof -
  have "map (\<lambda>g. (dc_userId g, dc_date g)) (dailyMessageCounts DATE d r)
          = map fst (groupBy (\<lambda>m. (messageLog_userId m, DATE (messageLog_createdAt m))) (messagesInRange d r))"
    by (simp add: dailyMessageCounts_def comp_def case_prod_beta)
  then show ?thesis by (simp add: groupBy_keys)
qed

lemma messagesOn_pos_iff:
  "0 < messagesOn DATE d r u day \<longleftrightarrow>
     (u, day) \<in> set (map (\<lambda>g. (dc_userId g, dc_date g)) (dailyMessageCounts DATE d r))"
  unfolding dailyMessageCounts_keys
  by (auto simp: messagesOn_def filter_empty_conv image_iff)

lemma limit_hit_pairs:
  "set (map (\<lambda>g. (dc_userId g, dc_date g)) (usersHittingLimits (dailyMessageCounts DATE d r)))
     = {(u, day). 5 \<le> messagesOn DATE d r u day}"
proof (intro set_eqI iffI)
  fix x
  assume "x \<in> set (map (\<lambda>g. (dc_userId g, dc_date g)) (usersHittingLimits (dailyMessageCounts DATE d r)))"
  then obtain g where g: "g \<in> set (dailyMessageCounts DATE d r)" "5 \<le> dc_messageCount g"
    and x: "x = (dc_userId g, dc_date g)"
    by (auto simp: usersHittingLimits_def)
  then show "x \<in> {(u, day). 5 \<le> messagesOn DATE d r u day}"
    using dailyMessageCounts_row(1) [OF g(1)] by simp
next
  fix x
  assume "x \<in> {(u, day). 5 \<le> messagesOn DATE d r u day}"
  then obtain u day where x: "x = (u, day)" and five: "5 \<le> messagesOn DATE d r u day" by auto
  then have "0 < messagesOn DATE d r u day" by simp
  then obtain g where g: "g \<in> set (dailyMessageCounts DATE d r)" and k: "(dc_userId g, dc_date g) = (u, day)"
    unfolding messagesOn_pos_iff by auto
  have "dc_messageCount g = messagesOn DATE d r u day"
    using dailyMessageCounts_row(1) [OF g] k by simp
  then have "g \<in> set (usersHittingLimits (dailyMessageCounts DATE d r))"
    using g five by (simp add: usersHittingLimits_def)
  then show "x \<in> set (map (\<lambda>g. (dc_userId g, dc_date g)) (usersHittingLimits (dailyMessageCounts DATE d r)))"
    using k x by force
qed

lemma limit_hit_count:
  "length (usersHittingLimits (dailyMessageCounts DATE d r))
     = card {(u, day). 5 \<le> messagesOn DATE d r u day}"
proof -
  let ?key = "\<lambda>g. (dc_userId g, dc_date g)"
  have "distinct (map ?key (dailyMessageCounts DATE d r))"
    by (simp add: dailyMessageCounts_keys)
  then have "distinct (map ?key (usersHittingLimits (dailyMessageCounts DATE d r)))"
    unfolding usersHittingLimits_def by (rule distinct_map_filter)
  then have "card (set (map ?key (usersHittingLimits (dailyMessageCounts DATE d r))))
               = length (usersHittingLimits (dailyMessageCounts DATE d r))"
    using distinct_card by fastforce
  then show ?thesis by (simp only: limit_hit_pairs)
qed

text \<open>
  Claim C7. In \<^verbatim>\<open>rateLimitingImpact\<close>, a group of one user and one date is a
  limit-hit day iff it counts at least 5 messages; \<^verbatim>\<open>totalDaysWithLimitHits\<close> is
  the number of such rows, that is the number of pairs of a user and a date with
  at least 5 messages in the interval, not the number of dates; and
  \<^verbatim>\<open>dailyLimitHits\<close> is the first 50 of these rows.
\<close>

theorem rateLimitingImpact_limit_hits:
  "(let r = getDateRange now p;
        rows = dailyMessageCounts DATE d r;
        result = rateLimitingImpact DATE d now p
    in (\<forall>g \<in> set rows.
          dc_messageCount g = messagesOn DATE d r (dc_userId g) (dc_date g) \<and>
          (g \<in> set (usersHittingLimits rows) \<longleftrightarrow> 5 \<le> dc_messageCount g)) \<and>
       totalDaysWithLimitHits result = length (usersHittingLimits rows) \<and>
       totalDaysWithLimitHits result = card {(u, day). 5 \<le> messagesOn DATE d r u day} \<and>
       dailyLimitHits result = take 50 (usersHittingLimits rows))"
proof -
  define r where "r = getDateRange now p"
  have a: "\<forall>g \<in> set (dailyMessageCounts DATE d r).
          dc_messageCount g = messagesOn DATE d r (dc_userId g) (dc_date g) \<and>
          (g \<in> set (usersHittingLimits (dailyMessageCounts DATE d r)) \<longleftrightarrow> 5 \<le> dc_messageCount g)"
    using dailyMessageCounts_row(1) by (auto simp: usersHittingLimits_def)
  have b: "totalDaysWithLimitHits (rateLimitingImpact DATE d now p)
             = length (usersHittingLimits (dailyMessageCounts DATE d r))"
    by (simp add: rateLimitingImpact_def rateLimitingImpactOf_def Let_def r_def)
  have c: "dailyLimitHits (rateLimitingImpact DATE d now p)
             = take 50 (usersHittingLimits (dailyMessageCounts DATE d r))"
    by (simp add: rateLimitingImpact_def rateLimitingImpactOf_def Let_def r_def)
  show ?thesis
    unfolding Let_def r_def [symmetric] using a b c limit_hit_count [of DATE d r] by simp
qed

text \<open>
  Three users on one day: five messages are a limit hit and four are not, and
  the two hits of that single day count as two.
\<close>

lemma limitsExample_rows:
  "dailyMessageCounts utcDay limitsExample (getDateRange 86400000 P7d)
     = [\<lparr>dc_userId = ''ann'', dc_date = 0, dc_messageCount = 5\<rparr>,
        \<lparr>dc_userId = ''bob'', dc_date = 0, dc_messageCount = 4\<rparr>,
        \<lparr>dc_userId = ''cy'', dc_date = 0, dc_messageCount = 5\<rparr>]"
  by (simp add: dailyMessageCounts_def groupBy_def messagesInRange_def limitsExample_def
        messageAt_def inRange_def getDateRange_def daysBack_def utcDay_def)

theorem rateLimitingImpact_limit_hits_witness:
  "usersHittingLimits (dailyMessageCounts utcDay limitsExample (getDateRange 86400000 P7d))
     = [\<lparr>dc_userId = ''ann'', dc_date = 0, dc_messageCount = 5\<rparr>,
        \<lparr>dc_userId = ''cy'', dc_date = 0, dc_messageCount = 5\<rparr>] \<and>
   totalDaysWithLimitHits (rateLimitingImpact utcDay limitsExample 86400000 P7d) = 2 \<and>
   card {(u, day). 5 \<le> messagesOn utcDay limitsExample (getDateRange 86400000 P7d) u day} = 2 \<and>
   dailyLimitHits (rateLimitingImpact utcDay limitsExample 86400000 P7d)
     = [\<lparr>dc_userId = ''ann'', dc_date = 0, dc_messageCount = 5\<rparr>,
        \<lparr>dc_userId = ''cy'', dc_date = 0, dc_messageCount = 5\<rparr>]"
  using rateLimitingImpact_limit_hits [of 86400000 P7d utcDay limitsExample]
  by (simp add: Let_def limitsExample_rows usersHittingLimits_def)

subsection \<open>The synthesized series of userGrowth\<close>

text \<open>
  \<^verbatim>\<open>days\<close> is the period's number of days when the two clock readings agree, and
  one more when the clock has advanced between them.
\<close>

lemma elapsedDays_same_instant: "elapsedDays now now p = daysBack p"
proof -
  have "\<bar>daysBack p\<bar> \<le> 2 ^ 53" by (cases p) (simp_all add: daysBack_def)
  then have "fl (of_int (daysBack p)) = of_int (daysBack p)" by (rule fl_of_int)
  moreover have "real_of_int (now - startDate (getDateRange now p)) / (1000 * 60 * 60 * 24)
                   = of_int (daysBack p)"
    by (simp add: getDateRange_def)
  ultimately show ?thesis by (simp add: elapsedDays_def fdiv_def)
qed

lemma elapsedDays_after_tick:
  assumes "0 < later - now" and "later - now \<le> 86400000"
  shows "elapsedDays now later p = daysBack p + 1"
proof -
  define N where "N = daysBack p"
  define t where "t = real_of_int (later - now) / 86400000"
  define x where "x = real_of_int N + t"
  have N: "7 \<le> N" "N \<le> 365" by (cases p; simp add: N_def daysBack_def)+
  have "1 \<le> later - now" using assms(1) by simp
  then have "1 \<le> real_of_int (later - now)" by (metis of_int_1_le_iff)
  then have t0: "1 / 86400000 \<le> t" by (simp add: t_def)
  have "real_of_int (later - now) \<le> 86400000" using assms(2) by (metis of_int_le_iff of_int_numeral)
  then have t1: "t \<le> 1" by (simp add: t_def)
  have Nr: "7 \<le> real_of_int N" "real_of_int N \<le> 365"
    using N by (metis of_int_le_iff of_int_numeral)+
  have arg: "real_of_int (later - startDate (getDateRange now p)) / (1000 * 60 * 60 * 24) = x"
    by (simp add: getDateRange_def x_def t_def N_def add_divide_distrib diff_divide_distrib)
  have "\<bar>fl x - x\<bar> \<le> \<bar>x\<bar> / 2 ^ 53" by (rule fl_rel_error)
  moreover have "\<bar>x\<bar> / 2 ^ 53 < 1 / 86400000"
  proof -
    have "\<bar>x\<bar> \<le> 366" using Nr t0 t1 by (simp add: x_def)
    then have "\<bar>x\<bar> / 2 ^ 53 \<le> 366 / 2 ^ 53" by (simp add: divide_right_mono)
    then show ?thesis by simp
  qed
  ultimately have lo: "real_of_int N < fl x" using t0 unfolding x_def by linarith
  have "\<bar>N + 1\<bar> \<le> 2 ^ 53" using N by simp
  then have "fl (of_int (N + 1)) = of_int (N + 1)" by (rule fl_of_int)
  moreover have "fl x \<le> fl (of_int (N + 1))"
    using Nr t0 t1 by (intro fl_mono) (simp_all add: x_def)
  ultimately have hi: "fl x \<le> real_of_int (N + 1)" by simp
  have "\<lceil>fl x\<rceil> = N + 1" using lo hi by (simp add: ceiling_eq_iff)
  then show ?thesis unfolding elapsedDays_def fdiv_def arg by (simp add: N_def)
qed

text \<open>
  The base: rounding the quotient to binary64 does not change its floor.
\<close>

lemma floor_fdiv:
  assumes "a < 2 ^ 53" and "0 < b"
  shows "\<lfloor>fdiv (real a) (real b)\<rfloor> = int (a div b)"
proof -
  define q where "q = a div b"
  have qa: "q \<le> a" unfolding q_def by (rule div_le_dividend)
  have "q * b \<le> a" unfolding q_def by simp
  then have "real (q * b) \<le> real a" by (simp only: of_nat_le_iff)
  then have "real q * real b \<le> real a" by simp
  then have lo: "real q \<le> real a / real b" using assms(2) by (simp add: pos_le_divide_eq)
  have "int q \<le> 2 ^ 53" using qa assms(1) by simp
  then have "fl (real_of_int (int q)) = real_of_int (int q)" by (intro fl_of_int) simp
  then have flq: "fl (real q) = real q" by simp
  have "fl (real q) \<le> fl (real a / real b)" using lo by (intro fl_mono) simp_all
  then have lower: "real q \<le> fdiv (real a) (real b)" by (simp add: flq fdiv_def)
  have "a < (q + 1) * b"
    unfolding q_def using assms(2) dividend_less_div_times [of b a] by (simp add: algebra_simps)
  then have "a + 1 \<le> (q + 1) * b" by simp
  then have "real (a + 1) \<le> real ((q + 1) * b)" by (simp only: of_nat_le_iff)
  then have "real a + 1 \<le> (real q + 1) * real b" by (simp add: algebra_simps)
  then have up: "real a / real b + 1 / real b \<le> real q + 1"
    using assms(2) by (simp add: field_simps)
  have "\<bar>fl (real a / real b) - real a / real b\<bar> \<le> \<bar>real a / real b\<bar> / 2 ^ 53"
    by (rule fl_rel_error)
  then have "fl (real a / real b) \<le> real a / real b + (real a / real b) / 2 ^ 53" by simp
  moreover have "(real a / real b) / 2 ^ 53 < 1 / real b"
  proof -
    have "real a < real (2 ^ 53)" using assms(1) by (simp only: of_nat_less_iff)
    then have "real a < 2 ^ 53" by simp
    then have "real a / 2 ^ 53 < 1" by simp
    then have "(real a / 2 ^ 53) / real b < 1 / real b"
      using assms(2) by (intro divide_strict_right_mono) simp_all
    then show ?thesis by (simp add: field_simps)
  qed
  ultimately have upper: "fdiv (real a) (real b) < real q + 1" using up by (simp add: fdiv_def)
  have "\<lfloor>fdiv (real a) (real b)\<rfloor> = int q" using lower upper by linarith
  then show ?thesis by (simp add: q_def)
qed

lemma avgDailySignups_div:
  assumes "tot < 2 ^ 53"
  shows "avgDailySignups tot days = int tot div max days 1"
proof -
  define D where "D = nat (max days 1)"
  have D: "0 < D" "int D = max days 1" by (auto simp: D_def)
  have "real_of_int (max days 1) = real D" using D(2) by (metis of_int_of_nat_eq)
  then have "avgDailySignups tot days = \<lfloor>fdiv (real tot) (real D)\<rfloor>"
    by (simp add: avgDailySignups_def)
  also have "\<dots> = int (tot div D)" using assms D(1) by (rule floor_fdiv)
  also have "\<dots> = int tot div int D" by (rule zdiv_int)
  finally show ?thesis by (simp add: D(2))
qed

text \<open>
  The jitter factor. A draw of \<^verbatim>\<open>Math.random()\<close> is a binary64 number in \<open>[0, 1)\<close>,
  so at most \<open>1 - 2^-53\<close>; the factor \<^verbatim>\<open>0.8 + draw * 0.4\<close>, with its two
  roundings, stays in \<open>[0.8, 1.2)\<close>.
\<close>

lemma literal_08: "8 / 10 \<le> fl (8 / 10)" "fl (fl (8 / 10)) = fl (8 / 10)"
  by code_simp+

lemma literal_04: "0 \<le> fl (4 / 10)"
  by code_simp

lemma jitter_top: "fl (fl (8 / 10) + fl ((1 - 1 / 2 ^ 53) * fl (4 / 10))) < 12 / 10"
  by code_simp

lemma representable_below_one:
  assumes "fl r = r" and "0 \<le> r" and "r < 1"
  shows "r \<le> 1 - 1 / 2 ^ 53"
proof (cases "r < 1 / 2")
  case True
  then show ?thesis by simp
next
  case False
  then have "2 powi (- 1) \<le> \<bar>r\<bar>" "\<bar>r\<bar> < 2 powi (- 1 + 1)" using assms by simp_all
  then have "fl r = of_int (roundTiesToEven (r / 2 powi (- 1 - 52))) * 2 powi (- 1 - 52)"
    by (rule fl_eval)
  then have r: "r = of_int (roundTiesToEven (r * 2 ^ 53)) / 2 ^ 53"
    using assms(1) by (simp add: power_int_minus field_simps)
  define k where "k = roundTiesToEven (r * 2 ^ 53)"
  have "real_of_int k / 2 ^ 53 < 1" using r assms(3) by (simp add: k_def)
  then have "real_of_int k < 2 ^ 53" by simp
  then have "real_of_int k < real_of_int (2 ^ 53)" by simp
  then have "k < 2 ^ 53" by (simp only: of_int_less_iff)
  then have "k \<le> 2 ^ 53 - 1" by simp
  then have "real_of_int k \<le> real_of_int (2 ^ 53 - 1)" by (simp only: of_int_le_iff)
  then have "real_of_int k \<le> 2 ^ 53 - 1" by simp
  then have "real_of_int k / 2 ^ 53 \<le> (2 ^ 53 - 1) / 2 ^ 53" by (simp add: divide_right_mono)
  then show ?thesis using r by (simp add: k_def diff_divide_distrib)
qed

lemma jitter_range:
  assumes "fl r = r" and "0 \<le> r" and "r < 1"
  shows "8 / 10 \<le> jitter r" and "jitter r < 12 / 10"
proof -
  have a4: "0 \<le> fl (4 / 10)" by (rule literal_04)
  have a8: "0 \<le> fl (8 / 10)" using literal_08(1) by linarith
  have t0: "0 \<le> fmul r (fl (4 / 10))"
    unfolding fmul_def using assms(2) a4 by (intro fl_nonneg) simp
  have "fl (fl (8 / 10)) \<le> fl (fl (8 / 10) + fmul r (fl (4 / 10)))"
    using a8 t0 by (intro fl_mono) simp_all
  then show "8 / 10 \<le> jitter r"
    using literal_08 by (simp add: jitter_def fadd_def)
  have top: "r \<le> 1 - 1 / 2 ^ 53" using assms by (rule representable_below_one)
  have "fl (r * fl (4 / 10)) \<le> fl ((1 - 1 / 2 ^ 53) * fl (4 / 10))"
    using assms(2) a4 top by (intro fl_mono mult_right_mono) simp_all
  then have "fl (fl (8 / 10) + fl (r * fl (4 / 10)))
               \<le> fl (fl (8 / 10) + fl ((1 - 1 / 2 ^ 53) * fl (4 / 10)))"
    using a8 t0 by (intro fl_mono) (simp_all add: fmul_def)
  then show "jitter r < 12 / 10"
    using jitter_top by (simp add: jitter_def fadd_def fmul_def)
qed

lemma floor_fl_between:
  assumes "of_int k \<le> x" and "x \<le> of_int n" and "0 \<le> k" and "n \<le> 2 ^ 53"
  shows "k \<le> \<lfloor>fl x\<rfloor>" and "\<lfloor>fl x\<rfloor> \<le> n"
proof -
  have kn: "k \<le> n" using assms(1,2) by linarith
  have "fl (of_int k) = of_int k" using assms(3,4) kn by (intro fl_of_int) simp
  moreover have "fl (of_int k) \<le> fl x" using assms(1,3) by (intro fl_mono) simp_all
  ultimately show "k \<le> \<lfloor>fl x\<rfloor>" by (simp add: le_floor_iff)
  have "fl (of_int n) = of_int n" using assms(3,4) kn by (intro fl_of_int) simp
  moreover have "fl x \<le> fl (of_int n)" using assms(1,2,3) by (intro fl_mono) linarith+
  ultimately have "fl x \<le> of_int n" by simp
  then show "\<lfloor>fl x\<rfloor> \<le> n" by (simp add: floor_le_iff)
qed

lemma bucket_count:
  assumes r: "fl r = r" "0 \<le> r" "r < 1" and b: "0 \<le> base" "base < 2 ^ 52"
  shows "\<lfloor>real_of_int base * 8 / 10\<rfloor> \<le> \<lfloor>fmul (of_int base) (jitter r)\<rfloor>"
    and "\<lfloor>fmul (of_int base) (jitter r)\<rfloor> \<le> \<lceil>real_of_int base * 12 / 10\<rceil>"
proof -
  note j = jitter_range [OF r]
  define x where "x = real_of_int base * jitter r"
  have b0: "0 \<le> real_of_int base" using b(1) by simp
  have lo: "real_of_int base * (8 / 10) \<le> x" unfolding x_def using j(1) b0 by (rule mult_left_mono)
  have hi: "x \<le> real_of_int base * (12 / 10)"
    unfolding x_def using j(2) b0 by (intro mult_left_mono) simp_all
  have k: "of_int \<lfloor>real_of_int base * 8 / 10\<rfloor> \<le> x" using lo by linarith
  have n: "x \<le> of_int \<lceil>real_of_int base * 12 / 10\<rceil>" using hi by linarith
  have k0: "0 \<le> \<lfloor>real_of_int base * 8 / 10\<rfloor>" using b0 by simp
  have "real_of_int base < real_of_int (2 ^ 52)" using b(2) by (simp only: of_int_less_iff)
  then have "real_of_int base * 12 / 10 \<le> real_of_int (2 ^ 53)" by simp
  then have n53: "\<lceil>real_of_int base * 12 / 10\<rceil> \<le> 2 ^ 53" by (simp only: ceiling_le_iff)
  show "\<lfloor>real_of_int base * 8 / 10\<rfloor> \<le> \<lfloor>fmul (of_int base) (jitter r)\<rfloor>"
    unfolding fmul_def x_def [symmetric] using k n k0 n53 by (rule floor_fl_between)
  show "\<lfloor>fmul (of_int base) (jitter r)\<rfloor> \<le> \<lceil>real_of_int base * 12 / 10\<rceil>"
    unfolding fmul_def x_def [symmetric] using k n k0 n53 by (rule floor_fl_between)
qed

text \<open>
  Claim C8. With the randomness as an input, the series \<^verbatim>\<open>dailySignups\<close> of
  \<^verbatim>\<open>userGrowth\<close> has \<open>min(days, 30)\<close> buckets, where \<open>days\<close> is the number of
  elapsed days the code computes; the count of every bucket is
  \<^verbatim>\<open>Math.floor(base * f)\<close> for a jitter factor \<open>f\<close> with \<open>0.8 \<le> f < 1.2\<close>, where
  \<open>base\<close> is the floor of the number of users over \<open>max(days, 1)\<close>; and
  \<^verbatim>\<open>newUsersInPeriod\<close> is the sum of the counts. The product \<^verbatim>\<open>base * f\<close> is the
  binary64 product of the code. In exact arithmetic the count lies between the
  floor of \<open>0.8 base\<close> and the ceiling of \<open>1.2 base\<close>; the product can round up
  to \<open>1.2 base\<close> itself (\<open>jitter_largest_draw\<close> below).
\<close>

theorem userGrowth_series:
  assumes rand: "\<forall>i. fl (rand i) = rand i \<and> 0 \<le> rand i \<and> rand i < 1"
    and small: "length (users d) < 2 ^ 52"
  shows "(let result = userGrowth d now later rand p;
              days = elapsedDays now later p;
              base = int (length (users d)) div max days 1
          in length (dailySignups result) = nat (min days 30) \<and>
             (\<forall>day \<in> set (dailySignups result).
                (\<exists>f. 8 / 10 \<le> f \<and> f < 12 / 10 \<and> sd_count day = \<lfloor>fmul (of_int base) f\<rfloor>) \<and>
                \<lfloor>real_of_int base * 8 / 10\<rfloor> \<le> sd_count day \<and>
                sd_count day \<le> \<lceil>real_of_int base * 12 / 10\<rceil>) \<and>
             newUsersInPeriod result = sum_list (map sd_count (dailySignups result)))"
proof -
  define days where "days = elapsedDays now later p"
  define base where "base = int (length (users d)) div max days 1"
  have "length (users d) < 2 ^ 53" using small by simp
  then have avg: "avgDailySignups (length (users d)) days = base"
    unfolding base_def by (rule avgDailySignups_div)
  have b0: "0 \<le> base" unfolding base_def by (simp add: pos_imp_zdiv_nonneg_iff)
  have "int (nat (max days 1)) = max days 1" by auto
  then have "base = int (length (users d) div nat (max days 1))"
    unfolding base_def by (simp only: zdiv_int)
  then have "base \<le> int (length (users d))" by simp
  then have b52: "base < 2 ^ 52" using small by simp
  have series: "dailySignups (userGrowth d now later rand p)
          = map (\<lambda>i. \<lparr>sd_date = startDate (getDateRange now p) + int i * 24 * 60 * 60 * 1000,
                        sd_count = \<lfloor>fmul (of_int base) (jitter (rand i))\<rfloor>\<rparr>)
                [0..<nat (min days 30)]"
    by (simp add: userGrowth_def Let_def selectCount_def firstCountOr_def avg days_def [symmetric])
  have len: "length (dailySignups (userGrowth d now later rand p)) = nat (min days 30)"
    by (simp add: series)
  have each: "\<forall>day \<in> set (dailySignups (userGrowth d now later rand p)).
                (\<exists>f. 8 / 10 \<le> f \<and> f < 12 / 10 \<and> sd_count day = \<lfloor>fmul (of_int base) f\<rfloor>) \<and>
                \<lfloor>real_of_int base * 8 / 10\<rfloor> \<le> sd_count day \<and>
                sd_count day \<le> \<lceil>real_of_int base * 12 / 10\<rceil>"
  proof
    fix day assume "day \<in> set (dailySignups (userGrowth d now later rand p))"
    then obtain i where day: "sd_count day = \<lfloor>fmul (of_int base) (jitter (rand i))\<rfloor>"
      unfolding series by auto
    have r: "fl (rand i) = rand i" "0 \<le> rand i" "rand i < 1" using rand by simp_all
    have "8 / 10 \<le> jitter (rand i) \<and> jitter (rand i) < 12 / 10 \<and>
          sd_count day = \<lfloor>fmul (of_int base) (jitter (rand i))\<rfloor>"
      using jitter_range [OF r] day by simp
    then have "\<exists>f. 8 / 10 \<le> f \<and> f < 12 / 10 \<and> sd_count day = \<lfloor>fmul (of_int base) f\<rfloor>" by blast
    then show "(\<exists>f. 8 / 10 \<le> f \<and> f < 12 / 10 \<and> sd_count day = \<lfloor>fmul (of_int base) f\<rfloor>) \<and>
                \<lfloor>real_of_int base * 8 / 10\<rfloor> \<le> sd_count day \<and>
                sd_count day \<le> \<lceil>real_of_int base * 12 / 10\<rceil>"
      using bucket_count [OF r b0 b52] unfolding day by blast
  qed
  have new: "newUsersInPeriod (userGrowth d now later rand p)
               = sum_list (map sd_count (dailySignups (userGrowth d now later rand p)))"
    by (simp add: userGrowth_def Let_def foldl_add_int)
  show ?thesis
    unfolding Let_def days_def [symmetric] base_def [symmetric]
    by (rule conjI [OF len conjI [OF each new]])
qed

text \<open>
  35 users over 7 days give the base 5; the draw one half gives the count 5 in
  each of the 7 buckets, and the largest draw below 1 gives 6.
\<close>

lemma half_draw: "fl (1 / 2) = 1 / 2" "\<lfloor>fmul 5 (jitter (1 / 2))\<rfloor> = 5"
  unfolding fmul_def jitter_def fadd_def by code_simp+

lemma jitter_largest_draw:
  "fl (1 - 1 / 2 ^ 53) = 1 - 1 / 2 ^ 53" "\<lfloor>fmul 5 (jitter (1 - 1 / 2 ^ 53))\<rfloor> = 6"
  unfolding fmul_def jitter_def fadd_def by code_simp+

theorem userGrowth_series_witness:
  "fl (1 / 2) = 1 / 2 \<and>
   length (users growthExample) = 35 \<and>
   elapsedDays 0 0 P7d = 7 \<and>
   length (dailySignups (userGrowth growthExample 0 0 (\<lambda>i. 1 / 2) P7d)) = 7 \<and>
   map sd_count (dailySignups (userGrowth growthExample 0 0 (\<lambda>i. 1 / 2) P7d)) = replicate 7 5 \<and>
   newUsersInPeriod (userGrowth growthExample 0 0 (\<lambda>i. 1 / 2) P7d) = 35"
proof -
  have rand: "\<forall>i::nat. fl (1 / 2) = 1 / 2 \<and> (0::real) \<le> 1 / 2 \<and> (1::real) / 2 < 1"
    using half_draw(1) by simp
  have n: "length (users growthExample) = 35" by (simp add: growthExample_def)
  then have small: "length (users growthExample) < 2 ^ 52" by simp
  have days: "elapsedDays 0 0 P7d = 7" by (simp add: elapsedDays_same_instant daysBack_def)
  have avg: "avgDailySignups 35 7 = 5" by (subst avgDailySignups_div) simp_all
  have counts: "map sd_count (dailySignups (userGrowth growthExample 0 0 (\<lambda>i. 1 / 2) P7d)) = replicate 7 5"
    by (simp add: userGrowth_def Let_def selectCount_def firstCountOr_def n days avg half_draw(2)
          comp_def map_replicate_const)
  note t = userGrowth_series [OF rand small, of 0 0 P7d, unfolded Let_def days]
  have len: "length (dailySignups (userGrowth growthExample 0 0 (\<lambda>i. 1 / 2) P7d)) = 7"
    using t by simp
  have "newUsersInPeriod (userGrowth growthExample 0 0 (\<lambda>i. 1 / 2) P7d)
          = sum_list (map sd_count (dailySignups (userGrowth growthExample 0 0 (\<lambda>i. 1 / 2) P7d)))"
    using t by simp
  then have new: "newUsersInPeriod (userGrowth growthExample 0 0 (\<lambda>i. 1 / 2) P7d) = 35"
    by (simp add: counts sum_list_replicate)
  show ?thesis using half_draw(1) n days len counts new by simp
qed

subsection \<open>The average on limit-hit days\<close>

lemma average_on_limit_days:
  assumes "0 < length (usersHittingLimits counts)"
  shows "\<exists>v. decimalValue (averageMessagesOnLimitDays (rateLimitingImpactOf counts)) = Some v \<and> 5 \<le> v"
proof -
  define hits where "hits = usersHittingLimits counts"
  define s where "s = sum_list (map dc_messageCount hits)"
  have n: "0 < length hits" using assms by (simp add: hits_def)
  have "\<forall>g \<in> set hits. 5 \<le> dc_messageCount g" by (simp add: hits_def usersHittingLimits_def)
  then have "5 * length hits \<le> s" unfolding s_def by (rule sum_list_lower)
  then have "5 * real (length hits) \<le> real s"
    by (metis of_nat_le_iff of_nat_mult of_nat_numeral)
  then have q: "5 \<le> real s / real (length hits)" using n by (simp add: pos_le_divide_eq)
  have "fl (real_of_int 5) \<le> fl (real s / real (length hits))"
    using q by (intro fl_mono) simp_all
  then have "real_of_int 5 \<le> fdiv (real s) (real (length hits))"
    by (simp add: fdiv_def fl_five)
  then have "\<exists>v. decimalValue (toFixed2 (Fin (fdiv (real s) (real (length hits))))) = Some v
                 \<and> real_of_int 5 \<le> v"
    by (rule decimalValue_toFixed2_lower) simp
  moreover have "averageMessagesOnLimitDays (rateLimitingImpactOf counts)
                   = toFixed2 (Fin (fdiv (real s) (real (length hits))))"
    using n by (simp add: rateLimitingImpactOf_def Let_def hits_def [symmetric] foldl_add_nat s_def)
  ultimately show ?thesis by simp
qed

lemma five: "toFixed2 (Fin 5) = ''5.00''"
  by (subst toFixed2_eval [where n = 500]) (simp_all add: decimalDigits_small digitChar_def)

text \<open>
  Claim C9. Whenever \<^verbatim>\<open>rateLimitingImpact\<close> finds at least one limit-hit day,
  \<^verbatim>\<open>averageMessagesOnLimitDays\<close> is a decimal numeral whose value is at least 5.
\<close>

theorem average_on_limit_days_at_least_5:
  assumes "0 < totalDaysWithLimitHits (rateLimitingImpact DATE d now p)"
  shows "\<exists>v. decimalValue (averageMessagesOnLimitDays (rateLimitingImpact DATE d now p)) = Some v
             \<and> 5 \<le> v"
proof -
  have "0 < length (usersHittingLimits (dailyMessageCounts DATE d (getDateRange now p)))"
    using assms by (simp add: rateLimitingImpact_def rateLimitingImpactOf_def Let_def)
  then show ?thesis unfolding rateLimitingImpact_def by (rule average_on_limit_days)
qed

text \<open>The example of claim C7 has the average \<^verbatim>\<open>"5.00"\<close>.\<close>

theorem average_on_limit_days_at_least_5_witness:
  "0 < totalDaysWithLimitHits (rateLimitingImpact utcDay limitsExample 86400000 P7d) \<and>
   averageMessagesOnLimitDays (rateLimitingImpact utcDay limitsExample 86400000 P7d) = ''5.00'' \<and>
   (\<exists>v. decimalValue (averageMessagesOnLimitDays (rateLimitingImpact utcDay limitsExample 86400000 P7d))
          = Some v \<and> 5 \<le> v)"
proof -
  have n: "0 < totalDaysWithLimitHits (rateLimitingImpact utcDay limitsExample 86400000 P7d)"
    by (simp add: rateLimitingImpact_def rateLimitingImpactOf_def Let_def limitsExample_rows
          usersHittingLimits_def)
  have t: "averageMessagesOnLimitDays (rateLimitingImpact utcDay limitsExample 86400000 P7d) = ''5.00''"
    by (simp add: rateLimitingImpact_def rateLimitingImpactOf_def Let_def limitsExample_rows
          usersHittingLimits_def fdiv_def fl_five five)
  show ?thesis using n t average_on_limit_days_at_least_5 [OF n] by simp
qed

subsection \<open>The counts of the segmentation\<close>

text \<open>
  Claim C10. In the result of \<^verbatim>\<open>userSegmentation\<close>, \<^verbatim>\<open>freeUsers + paidUsers\<close> and
  \<^verbatim>\<open>heavyUsers + lightUsers\<close> both equal the number of rows of the grouped
  query, and each of the four lists under \<^verbatim>\<open>segments\<close> has at most 10 entries.
\<close>

theorem userSegmentation_counts:
  "freeUsers (userSegmentation d) + paidUsers (userSegmentation d) = length (userSegments d) \<and>
   heavyUsers (userSegmentation d) + lightUsers (userSegmentation d) = length (userSegments d) \<and>
   length (free (segments (userSegmentation d))) \<le> 10 \<and>
   length (paid (segments (userSegmentation d))) \<le> 10 \<and>
   length (heavy (segments (userSegmentation d))) \<le> 10 \<and>
   length (light (segments (userSegmentation d))) \<le> 10"
proof -
  have fp: "length (freeRows rows) + length (paidRows rows) = length rows" for rows
    unfolding freeRows_def paidRows_def
    using sum_length_filter_compl [of seg_hasPaid rows] by simp
  have hl: "length (heavyRows rows) + length (lightRows rows) = length rows" for rows
    unfolding heavyRows_def lightRows_def
    using sum_length_filter_compl [of "\<lambda>user. 10 < seg_totalMessages user" rows]
    by (simp add: not_less)
  show ?thesis
    by (simp add: userSegmentation_def userSegmentationOf_def fp hl)
qed


end
